theory Spec2Isabelle
  imports Complex_Main "HOL-Library.Multiset" "HOL-Library.Sublist"
begin

section \<open>A k-d tree with nearest-neighbour search\<close>

text \<open>
  The development follows the C++ templates \<^verbatim>\<open>kd::Point<T>\<close>, \<^verbatim>\<open>kd::Tree<T>\<close> with its
  \<^verbatim>\<open>TreeIterator\<close>, and the two searches \<^verbatim>\<open>findNN_brute_force\<close> and \<^verbatim>\<open>findNN\<close>.

  The scalar type \<^verbatim>\<open>T\<close> is a template parameter, which the repository instantiates
  with \<^verbatim>\<open>int\<close>. It is the parameter \<open>ty\<close> of the functions that compute in it: the
  coordinates are integers, and the arithmetic of \<^verbatim>\<open>distance_to\<close> and of the pruned search
  wraps around as that of \<^verbatim>\<open>T\<close> does. Floating-point scalars are outside the model.
\<close>

subsection \<open>Failures\<close>

text \<open>
  \<open>out_of_range\<close> is the \<^verbatim>\<open>std::out_of_range\<close> thrown by \<^verbatim>\<open>Point::operator[]\<close>,
  \<open>assertion_failed\<close> the \<^verbatim>\<open>assert\<close> of \<^verbatim>\<open>RecursiveInit\<close>, and \<open>undefined_behaviour\<close>
  stands for the places where the C++ has none: dereferencing the end of an empty
  range, a remainder by zero, a null or uninitialised pointer.
\<close>

datatype error = out_of_range | assertion_failed | undefined_behaviour

subsection \<open>The scalar type\<close>

text \<open>
  \<^verbatim>\<open>T\<close> is one of the integer types on which C++ computes without promotion, 32 bits
  for \<^verbatim>\<open>int\<close> and \<^verbatim>\<open>unsigned\<close> and 64 bits for the two \<^verbatim>\<open>long long\<close> types. A value of
  \<^verbatim>\<open>T\<close> is the integer it denotes, and \<open>numeric_max\<close> is
  \<^verbatim>\<open>std::numeric_limits<T>::max()\<close>.

  A sum, difference or product computed in \<^verbatim>\<open>T\<close> is the mathematical result reduced
  modulo \<open>2 ^ bits\<close> into the range of \<^verbatim>\<open>T\<close>, which is \<open>wrap\<close>. For the unsigned types
  this is the arithmetic C++ defines. For the signed types the standard leaves overflow
  undefined; \<open>wrap\<close> is then the two's complement result the compiled program computes.
\<close>

datatype scalar = T_int | T_unsigned | T_long_long | T_unsigned_long_long

fun bits :: "scalar \<Rightarrow> nat" where
  "bits T_int = 32"
| "bits T_unsigned = 32"
| "bits T_long_long = 64"
| "bits T_unsigned_long_long = 64"

fun is_signed :: "scalar \<Rightarrow> bool" where
  "is_signed T_int = True"
| "is_signed T_unsigned = False"
| "is_signed T_long_long = True"
| "is_signed T_unsigned_long_long = False"

definition numeric_max :: "scalar \<Rightarrow> int" where
  "numeric_max ty = (if is_signed ty then 2 ^ (bits ty - 1) - 1 else 2 ^ bits ty - 1)"

definition wrap :: "scalar \<Rightarrow> int \<Rightarrow> int" where
  "wrap ty x =
     (if is_signed ty then (x + 2 ^ (bits ty - 1)) mod 2 ^ bits ty - 2 ^ (bits ty - 1)
      else x mod 2 ^ bits ty)"

subsection \<open>Point\<close>

text \<open>
  A point owns \<^verbatim>\<open>dims_\<close> coordinates in \<^verbatim>\<open>data_\<close>; the list is \<^verbatim>\<open>data_\<close> and its
  length is \<^verbatim>\<open>dims_\<close> (what \<^verbatim>\<open>size()\<close> returns).
\<close>

type_synonym point = "int list"

text \<open>\<^verbatim>\<open>operator[]\<close>: the checked read of coordinate \<open>i\<close>.\<close>

definition point_at :: "point \<Rightarrow> nat \<Rightarrow> error + int" where
  "point_at p i = (if i \<ge> length p then Inl out_of_range else Inr (p ! i))"

text \<open>
  \<^verbatim>\<open>distance_to\<close>: the loop runs over the indices of the receiver, reading its own
  \<^verbatim>\<open>data_[i]\<close> directly and the other point through the checked \<^verbatim>\<open>other[i]\<close>. The
  two differences, their product and the sum \<^verbatim>\<open>total += ...\<close> are computed in \<^verbatim>\<open>T\<close>.
\<close>

fun distance_loop :: "scalar \<Rightarrow> point \<Rightarrow> point \<Rightarrow> nat list \<Rightarrow> int \<Rightarrow> error + int" where
  "distance_loop ty p other [] tot = Inr tot"
| "distance_loop ty p other (i # js) tot =
     (case point_at other i of
        Inl e \<Rightarrow> Inl e
      | Inr o_i \<Rightarrow>
          distance_loop ty p other js
            (wrap ty (tot + wrap ty (wrap ty (p ! i - o_i) * wrap ty (p ! i - o_i)))))"

definition distance_to :: "scalar \<Rightarrow> point \<Rightarrow> point \<Rightarrow> error + int" where
  "distance_to ty p other = distance_loop ty p other [0..<length p] 0"

subsection \<open>Tree\<close>

text \<open>
  A tree and a node are the same object. The owning pointers \<^verbatim>\<open>left_child_\<close> and
  \<^verbatim>\<open>right_child_\<close> are optional subtrees (\<open>None\<close> is \<^verbatim>\<open>nullptr\<close>).

  A pointer to a node that does not own it (\<^verbatim>\<open>parent_\<close>, \<^verbatim>\<open>this\<close>, the iterator's \<^verbatim>\<open>p\<close>)
  names the node by the path that leads to it from the root, last step first; \<open>None\<close>
  is \<^verbatim>\<open>nullptr\<close>. Every node is allocated once and owned by one parent, so the path
  identifies the object, and two pointers are equal exactly when the paths are.

  The field \<^verbatim>\<open>parent_\<close> is stored as the code stores it. The default constructor
  \<^verbatim>\<open>Tree() {}\<close> assigns nothing, so the field has three states: \<open>None\<close> (never
  assigned), \<open>Some None\<close> (\<^verbatim>\<open>nullptr\<close>) and \<open>Some (Some p)\<close>.
\<close>

datatype dir = L | R

type_synonym nodeptr = "dir list option"

datatype tree = Tree (left_child: "tree option") (right_child: "tree option")
  (parent: "nodeptr option") (split_axis: nat) (dims: nat) (split_point: point)

text \<open>The assignment \<^verbatim>\<open>child->parent_ = v\<close>.\<close>

definition set_parent :: "nodeptr \<Rightarrow> tree \<Rightarrow> tree" where
  "set_parent v child =
     Tree (left_child child) (right_child child) (Some v)
       (split_axis child) (dims child) (split_point child)"

text \<open>
  The validation loop of the root call: \<^verbatim>\<open>one_common_size\<close> starts at -1, takes the
  size of the first point, and every later size is asserted equal to it.
\<close>

fun validate :: "point list \<Rightarrow> int \<Rightarrow> error + unit" where
  "validate [] one_common_size = Inr ()"
| "validate (p # ps) one_common_size =
     (let k = int (length p) in
      if one_common_size = -1 then validate ps k
      else if k = one_common_size then validate ps one_common_size
      else Inl assertion_failed)"

text \<open>
  \<^verbatim>\<open>RecursiveInit\<close> over the range \<open>pts\<close>, run on the node \<open>this\<close>. The result is the
  node as the call leaves it: at depth 0 the call assigns \<^verbatim>\<open>parent_ = nullptr\<close>, at any
  other depth it does not touch \<^verbatim>\<open>parent_\<close>. For a child the node is a fresh
  \<^verbatim>\<open>new Tree<T>()\<close>, initialised by the recursive call, and then given
  \<^verbatim>\<open>parent_ = this\<close>.

  \<^verbatim>\<open>std::sort\<close> is library code and is not stable, so the sort is the parameter \<open>srt\<close>
  (\<open>srt axis pts\<close> is the range after \<^verbatim>\<open>std::sort\<close> with the comparator
  \<^verbatim>\<open>a[axis] < b[axis]\<close>); the theorems hold for every \<open>srt\<close> that returns a sorted
  permutation. The comparator reads through the checked \<^verbatim>\<open>operator[]\<close>, and sorting two
  or more elements compares each of them, so a point too short for the axis makes the
  sort throw. The sub-ranges are index ranges of the sorted array: \<open>[0, median)\<close> and
  \<open>[median + 1, n)\<close>.
\<close>

function RecursiveInit ::
  "(nat \<Rightarrow> point list \<Rightarrow> point list) \<Rightarrow> dir list \<Rightarrow> point list \<Rightarrow> nat \<Rightarrow> error + tree" where
  "RecursiveInit srt this pts depth =
     (case (if depth = 0 then validate pts (-1) else Inr ()) of
        Inl e \<Rightarrow> Inl e
      | Inr _ \<Rightarrow>
         (if pts = [] then Inl undefined_behaviour
          else let k = length (hd pts) in
            if k = 0 then Inl undefined_behaviour
            else let axis = depth mod k in
              if 2 \<le> length pts \<and> (\<exists>p \<in> set pts. length p \<le> axis) then Inl out_of_range
              else let n = length pts;
                       sorted_pts = srt axis pts;
                       median = n div 2;
                       n_right = n - (median + 1)
                   in (case (if median \<le> 0 then Inr None
                             else (case RecursiveInit srt (L # this) (take median sorted_pts)
                                          (depth + 1) of
                                     Inl e \<Rightarrow> Inl e
                                   | Inr c \<Rightarrow> Inr (Some (set_parent (Some this) c)))) of
                         Inl e \<Rightarrow> Inl e
                       | Inr l \<Rightarrow>
                          (case (if n_right \<le> 0 then Inr None
                                 else (case RecursiveInit srt (R # this)
                                              (take n_right (drop (median + 1) sorted_pts))
                                              (depth + 1) of
                                         Inl e \<Rightarrow> Inl e
                                       | Inr c \<Rightarrow> Inr (Some (set_parent (Some this) c)))) of
                             Inl e \<Rightarrow> Inl e
                           | Inr r \<Rightarrow>
                               Inr (Tree l r (if depth = 0 then Some None else None)
                                      axis k (sorted_pts ! median))))))"
  by pat_completeness auto
termination
  by (relation "measure (\<lambda>(srt, this, pts, depth). length pts)") auto

declare RecursiveInit.simps [simp del]

text \<open>
  The constructors \<^verbatim>\<open>Tree(Container&& input, int depth = 0)\<close> and
  \<^verbatim>\<open>Tree(std::initializer_list<Point<T>>)\<close> with the default depth: the root node.
\<close>

definition Tree_of :: "(nat \<Rightarrow> point list \<Rightarrow> point list) \<Rightarrow> point list \<Rightarrow> error + tree" where
  "Tree_of srt pts = RecursiveInit srt [] pts 0"

text \<open>What \<^verbatim>\<open>std::sort\<close> guarantees for the comparator \<^verbatim>\<open>a[axis] < b[axis]\<close>.\<close>

definition sorts_by_axis :: "(nat \<Rightarrow> point list \<Rightarrow> point list) \<Rightarrow> bool" where
  "sorts_by_axis srt =
     (\<forall>axis pts. (\<forall>p \<in> set pts. axis < length p) \<longrightarrow>
        mset (srt axis pts) = mset pts \<and> sorted (map (\<lambda>p. p ! axis) (srt axis pts)))"

text \<open>One such sort, used to run the construction on concrete inputs.\<close>

definition insertion_sort :: "nat \<Rightarrow> point list \<Rightarrow> point list" where
  "insertion_sort axis pts = sort_key (\<lambda>p. p ! axis) pts"

subsection \<open>TreeIterator\<close>

text \<open>
  The iterator holds one node pointer \<^verbatim>\<open>p\<close>; \<open>None\<close> is the \<^verbatim>\<open>end()\<close> iterator.
  \<open>node_at\<close> follows a path from a node, first step first.
\<close>

fun node_at :: "tree \<Rightarrow> dir list \<Rightarrow> tree option" where
  "node_at t [] = Some t"
| "node_at t (L # ds) = (case left_child t of None \<Rightarrow> None | Some c \<Rightarrow> node_at c ds)"
| "node_at t (R # ds) = (case right_child t of None \<Rightarrow> None | Some c \<Rightarrow> node_at c ds)"

text \<open>The node a pointer refers to, in the tree with root \<open>root_node\<close>.\<close>

definition deref :: "tree \<Rightarrow> dir list \<Rightarrow> tree option" where
  "deref root_node p = node_at root_node (rev p)"

text \<open>The pointer field \<^verbatim>\<open>right_child_\<close> of the node at \<open>p\<close>.\<close>

definition right_child_ptr :: "tree \<Rightarrow> dir list \<Rightarrow> nodeptr" where
  "right_child_ptr node p = (case right_child node of None \<Rightarrow> None | Some c \<Rightarrow> Some (R # p))"

text \<open>
  The constructor \<^verbatim>\<open>TreeIterator(nodeptr node)\<close>: descend to the left child if there is
  one, else to the right child, until a node without children.
\<close>

fun TreeIterator :: "tree \<Rightarrow> dir list \<Rightarrow> dir list" where
  "TreeIterator (Tree l r par axis k sp) p =
     (case l of
        Some c \<Rightarrow> TreeIterator c (L # p)
      | None \<Rightarrow> (case r of Some c \<Rightarrow> TreeIterator c (R # p) | None \<Rightarrow> p))"

text \<open>The inner loop of \<^verbatim>\<open>operator++\<close>: \<^verbatim>\<open>while (p->left_child_) p = p->left_child_\<close>.\<close>

fun descend_left :: "tree \<Rightarrow> dir list \<Rightarrow> dir list" where
  "descend_left (Tree l r par axis k sp) p =
     (case l of Some c \<Rightarrow> descend_left c (L # p) | None \<Rightarrow> p)"

text \<open>
  The other branch of \<^verbatim>\<open>operator++\<close>: read \<^verbatim>\<open>p->parent_\<close>, walk up while the node is
  its parent's right child, then the final test
  \<^verbatim>\<open>if (!parent || p->right_child_ != parent) p = parent\<close>. The loop follows stored
  pointers, so nothing in it bounds the number of steps: \<open>None\<close> is a loop that never
  ends.
\<close>

partial_function (option) climb :: "tree \<Rightarrow> dir list \<Rightarrow> nodeptr \<Rightarrow> (error + nodeptr) option" where
  "climb root_node p parent_var =
     (case parent_var of
        None \<Rightarrow> Some (Inr None)
      | Some parent_p \<Rightarrow>
         (case deref root_node parent_p of
            None \<Rightarrow> Some (Inl undefined_behaviour)
          | Some parent_node \<Rightarrow>
             (if right_child_ptr parent_node parent_p = Some p then
                (case parent parent_node of
                   None \<Rightarrow> Some (Inl undefined_behaviour)
                 | Some grandparent \<Rightarrow> climb root_node parent_p grandparent)
              else (case deref root_node p of
                      None \<Rightarrow> Some (Inl undefined_behaviour)
                    | Some node \<Rightarrow>
                        if right_child_ptr node p \<noteq> Some parent_p then Some (Inr (Some parent_p))
                        else Some (Inr (Some p))))))"

declare climb.simps [code]

text \<open>\<^verbatim>\<open>operator++\<close>.\<close>

definition incr :: "tree \<Rightarrow> dir list \<Rightarrow> (error + nodeptr) option" where
  "incr root_node p =
     (case deref root_node p of
        None \<Rightarrow> Some (Inl undefined_behaviour)
      | Some node \<Rightarrow>
         (case right_child node of
            Some c \<Rightarrow> Some (Inr (Some (descend_left c (R # p))))
          | None \<Rightarrow>
             (case parent node of
                None \<Rightarrow> Some (Inl undefined_behaviour)
              | Some parent_var \<Rightarrow> climb root_node p parent_var)))"

text \<open>\<^verbatim>\<open>begin()\<close>; \<^verbatim>\<open>end()\<close> is the null iterator \<open>None\<close>.\<close>

definition begin_it :: "tree \<Rightarrow> nodeptr" where
  "begin_it root_node = Some (TreeIterator root_node [])"

text \<open>
  The loop \<^verbatim>\<open>for (it = ...; it != end(); ++it) body\<close> with the loop state \<open>s\<close>; the
  body is given the iterator's pointer. Nothing in the loop bounds the number of
  iterations, so the result is optional as well.
\<close>

partial_function (option) for_loop ::
  "tree \<Rightarrow> (dir list \<Rightarrow> 's \<Rightarrow> error + 's) \<Rightarrow> nodeptr \<Rightarrow> 's \<Rightarrow> (error + 's) option" where
  "for_loop root_node body it s =
     (case it of
        None \<Rightarrow> Some (Inr s)
      | Some p \<Rightarrow>
         (case body p s of
            Inl e \<Rightarrow> Some (Inl e)
          | Inr s' \<Rightarrow>
             (case incr root_node p of
                None \<Rightarrow> None
              | Some (Inl e) \<Rightarrow> Some (Inl e)
              | Some (Inr it') \<Rightarrow> for_loop root_node body it' s')))"

declare for_loop.simps [code]

text \<open>
  A full traversal \<^verbatim>\<open>for (auto it = tree.begin(); it != tree.end(); ++it)\<close> that
  records the pointers it visits, in order.
\<close>

definition traverse :: "tree \<Rightarrow> (error + dir list list) option" where
  "traverse root_node =
     for_loop root_node (\<lambda>p visited. Inr (visited @ [p])) (begin_it root_node) []"

text \<open>\<^verbatim>\<open>operator*\<close>: the point of the node the iterator is at.\<close>

definition star :: "tree \<Rightarrow> dir list \<Rightarrow> error + point" where
  "star root_node p =
     (case deref root_node p of
        None \<Rightarrow> Inl undefined_behaviour
      | Some node \<Rightarrow> Inr (split_point node))"

subsection \<open>Nearest-neighbour search\<close>

text \<open>
  \<^verbatim>\<open>findNN_brute_force\<close>. \<^verbatim>\<open>best_point\<close> is declared without a value (\<open>None\<close>) and is
  dereferenced after the loop.
\<close>

definition brute_force_body ::
  "scalar \<Rightarrow> tree \<Rightarrow> point \<Rightarrow> dir list \<Rightarrow> point option \<times> int \<Rightarrow> error + point option \<times> int"
  where
  "brute_force_body ty root_node ref_point p best =
     (case star root_node p of
        Inl e \<Rightarrow> Inl e
      | Inr pt \<Rightarrow>
         (case distance_to ty pt ref_point of
            Inl e \<Rightarrow> Inl e
          | Inr dist_p \<Rightarrow>
              if dist_p < snd best then Inr (Some pt, dist_p) else Inr best))"

definition findNN_brute_force :: "scalar \<Rightarrow> tree \<Rightarrow> point \<Rightarrow> (error + point) option" where
  "findNN_brute_force ty tree ref_point =
     (case for_loop tree (brute_force_body ty tree ref_point) (begin_it tree)
             (None, numeric_max ty) of
        None \<Rightarrow> None
      | Some (Inl e) \<Rightarrow> Some (Inl e)
      | Some (Inr (best_point, best_dist)) \<Rightarrow>
         (case best_point of
            None \<Rightarrow> Some (Inl undefined_behaviour)
          | Some b \<Rightarrow> Some (Inr b)))"

text \<open>
  \<^verbatim>\<open>findNN_\<close>, the recursive search (a name cannot end in an underscore here). The pair
  is what \<^verbatim>\<open>best_point\<close> and \<^verbatim>\<open>best_dist\<close> point to; the result is the pair on return.
  The difference \<^verbatim>\<open>d\<close> has the type \<^verbatim>\<open>T\<close> (it is declared \<^verbatim>\<open>auto\<close>), so \<^verbatim>\<open>d\<close> and
  \<^verbatim>\<open>d*d\<close> are computed in \<^verbatim>\<open>T\<close>, and \<^verbatim>\<open>d > 0\<close> compares values of \<^verbatim>\<open>T\<close>.
\<close>

function findNN_rec ::
  "scalar \<Rightarrow> tree \<Rightarrow> point \<Rightarrow> point \<times> int \<Rightarrow> error + point \<times> int" where
  "findNN_rec ty (Tree l r par axis k sp) ref_point (best_point, best_dist) =
     (case distance_to ty sp ref_point of
        Inl e \<Rightarrow> Inl e
      | Inr local_dist \<Rightarrow>
         (let best = (if local_dist < best_dist then (sp, local_dist)
                      else (best_point, best_dist))
          in case point_at ref_point axis of
               Inl e \<Rightarrow> Inl e
             | Inr ref_c \<Rightarrow>
                (case point_at sp axis of
                   Inl e \<Rightarrow> Inl e
                 | Inr local_c \<Rightarrow>
                    (let d = wrap ty (ref_c - local_c);
                         closer_child = (if d > 0 then r else l);
                         farther_child = (if d > 0 then l else r)
                     in case (case closer_child of
                                None \<Rightarrow> Inr best
                              | Some c \<Rightarrow> findNN_rec ty c ref_point best) of
                          Inl e \<Rightarrow> Inl e
                        | Inr best' \<Rightarrow>
                           (if wrap ty (d * d) < snd best' then
                              (case farther_child of
                                 None \<Rightarrow> Inr best'
                               | Some f \<Rightarrow> findNN_rec ty f ref_point best')
                            else Inr best')))))"
  by pat_completeness auto
termination
  by (relation "measure (\<lambda>(ty, t, q, s). size t)") (auto split: if_splits)

declare findNN_rec.simps [simp del]

text \<open>
  The state \<^verbatim>\<open>findNN\<close> sets up before the recursive call: a pointer to the root's point,
  and \<^verbatim>\<open>std::numeric_limits<T>::max()\<close>.
\<close>

definition findNN_init :: "scalar \<Rightarrow> tree \<Rightarrow> point \<Rightarrow> point \<times> int" where
  "findNN_init ty tree ref_point = (split_point tree, numeric_max ty)"

definition findNN :: "scalar \<Rightarrow> tree \<Rightarrow> point \<Rightarrow> error + point" where
  "findNN ty tree ref_point =
     (case findNN_rec ty tree ref_point (findNN_init ty tree ref_point) of
        Inl e \<Rightarrow> Inl e
      | Inr (best_point, best_dist) \<Rightarrow> Inr best_point)"

text \<open>
  The calls \<^verbatim>\<open>findNN_\<close> makes, in order: the node of every activation of the function.
  The control flow is that of \<open>findNN_rec\<close>; only what is recorded differs.
\<close>

function findNN_calls :: "scalar \<Rightarrow> tree \<Rightarrow> point \<Rightarrow> point \<times> int \<Rightarrow> tree list" where
  "findNN_calls ty (Tree l r par axis k sp) ref_point (best_point, best_dist) =
     Tree l r par axis k sp #
     (case distance_to ty sp ref_point of
        Inl e \<Rightarrow> []
      | Inr local_dist \<Rightarrow>
         (let best = (if local_dist < best_dist then (sp, local_dist)
                      else (best_point, best_dist))
          in case point_at ref_point axis of
               Inl e \<Rightarrow> []
             | Inr ref_c \<Rightarrow>
                (case point_at sp axis of
                   Inl e \<Rightarrow> []
                 | Inr local_c \<Rightarrow>
                    (let d = wrap ty (ref_c - local_c);
                         closer_child = (if d > 0 then r else l);
                         farther_child = (if d > 0 then l else r)
                     in (case closer_child of
                           None \<Rightarrow> []
                         | Some c \<Rightarrow> findNN_calls ty c ref_point best) @
                        (case (case closer_child of
                                 None \<Rightarrow> Inr best
                               | Some c \<Rightarrow> findNN_rec ty c ref_point best) of
                           Inl e \<Rightarrow> []
                         | Inr best' \<Rightarrow>
                            (if wrap ty (d * d) < snd best' then
                               (case farther_child of
                                  None \<Rightarrow> []
                                | Some f \<Rightarrow> findNN_calls ty f ref_point best')
                             else []))))))"
  by pat_completeness auto
termination
  by (relation "measure (\<lambda>(ty, t, q, s). size t)") (auto split: if_splits)

declare findNN_calls.simps [simp del]

section \<open>Vocabulary of the properties\<close>

text \<open>The points stored in a tree, left subtree first, then the node, then the right subtree.\<close>

fun points_of :: "tree \<Rightarrow> point list" where
  "points_of (Tree l r par axis k sp) =
     (case l of None \<Rightarrow> [] | Some c \<Rightarrow> points_of c) @ [sp] @
     (case r of None \<Rightarrow> [] | Some c \<Rightarrow> points_of c)"

text \<open>
  \<open>coord_le axis p q\<close>: both points have a coordinate \<open>axis\<close> (read as the code reads
  it) and that of \<open>p\<close> is at most that of \<open>q\<close>.
\<close>

definition coord_le :: "nat \<Rightarrow> point \<Rightarrow> point \<Rightarrow> bool" where
  "coord_le axis p q =
     (case point_at p axis of
        Inl e \<Rightarrow> False
      | Inr a \<Rightarrow> (case point_at q axis of Inl e \<Rightarrow> False | Inr b \<Rightarrow> a \<le> b))"

text \<open>The ordering invariant, at every node.\<close>

fun ordered :: "tree \<Rightarrow> bool" where
  "ordered (Tree l r par axis k sp) =
     ((case l of None \<Rightarrow> True
       | Some c \<Rightarrow> list_all (\<lambda>p. coord_le axis p sp) (points_of c) \<and> ordered c) \<and>
      (case r of None \<Rightarrow> True
       | Some c \<Rightarrow> list_all (\<lambda>p. coord_le axis sp p) (points_of c) \<and> ordered c))"

text \<open>The number of levels.\<close>

fun height :: "tree \<Rightarrow> nat" where
  "height (Tree l r par axis k sp) =
     1 + max (case l of None \<Rightarrow> 0 | Some c \<Rightarrow> height c)
             (case r of None \<Rightarrow> 0 | Some c \<Rightarrow> height c)"

text \<open>
  Every node at depth \<open>depth\<close> splits on \<open>depth mod k\<close>, records \<open>k\<close> dimensions and
  holds a point of \<open>k\<close> coordinates.
\<close>

fun cycles_axes :: "nat \<Rightarrow> nat \<Rightarrow> tree \<Rightarrow> bool" where
  "cycles_axes k depth (Tree l r par axis k' sp) =
     (axis = depth mod k \<and> k' = k \<and> length sp = k \<and>
      (case l of None \<Rightarrow> True | Some c \<Rightarrow> cycles_axes k (depth + 1) c) \<and>
      (case r of None \<Rightarrow> True | Some c \<Rightarrow> cycles_axes k (depth + 1) c))"

text \<open>Every node with a right child has a left child.\<close>

fun right_implies_left :: "tree \<Rightarrow> bool" where
  "right_implies_left (Tree l r par axis k sp) =
     ((case r of None \<Rightarrow> True | Some c \<Rightarrow> l \<noteq> None) \<and>
      (case l of None \<Rightarrow> True | Some c \<Rightarrow> right_implies_left c) \<and>
      (case r of None \<Rightarrow> True | Some c \<Rightarrow> right_implies_left c))"

text \<open>The integers that are values of the scalar type.\<close>

definition representable :: "scalar \<Rightarrow> int \<Rightarrow> bool" where
  "representable ty x =
     ((if is_signed ty then - numeric_max ty - 1 else 0) \<le> x \<and> x \<le> numeric_max ty)"

text \<open>The squared Euclidean distance over the coordinates of \<open>p\<close>.\<close>

definition sqd :: "point \<Rightarrow> point \<Rightarrow> int" where
  "sqd p q = (\<Sum>i\<leftarrow>[0..<length p]. (p ! i - q ! i) * (p ! i - q ! i))"

text \<open>
  The node \<open>RecursiveInit\<close> leaves behind when nothing fails, with \<open>par\<close> stored in its
  \<^verbatim>\<open>parent_\<close>: the same recursion without the checks. It is a device of the proofs; the
  theorems are about \<open>RecursiveInit\<close>.
\<close>

function built ::
  "(nat \<Rightarrow> point list \<Rightarrow> point list) \<Rightarrow> nat \<Rightarrow> dir list \<Rightarrow> nodeptr option \<Rightarrow> point list \<Rightarrow>
   nat \<Rightarrow> tree" where
  "built srt k this par pts depth =
     Tree
       (if length pts div 2 = 0 then None
        else Some (built srt k (L # this) (Some (Some this))
               (take (length pts div 2) (srt (depth mod k) pts)) (depth + 1)))
       (if length pts - (length pts div 2 + 1) = 0 then None
        else Some (built srt k (R # this) (Some (Some this))
               (take (length pts - (length pts div 2 + 1))
                  (drop (length pts div 2 + 1) (srt (depth mod k) pts)))
               (depth + 1)))
       par (depth mod k) k (srt (depth mod k) pts ! (length pts div 2))"
  by pat_completeness auto
termination
  by (relation "measure (\<lambda>(srt, k, this, par, pts, depth). length pts)") auto

declare built.simps [simp del]

text \<open>
  The stored parent pointers of the subtree \<open>t\<close> that sits at pointer \<open>p\<close>: every child
  holds a pointer to the node that owns it.
\<close>

fun parents_linked :: "tree \<Rightarrow> dir list \<Rightarrow> bool" where
  "parents_linked (Tree l r par axis k sp) p =
     ((case l of None \<Rightarrow> True
       | Some c \<Rightarrow> parent c = Some (Some p) \<and> parents_linked c (L # p)) \<and>
      (case r of None \<Rightarrow> True
       | Some c \<Rightarrow> parent c = Some (Some p) \<and> parents_linked c (R # p)))"

text \<open>
  The pointers to the nodes of the subtree \<open>t\<close> that sits at pointer \<open>p\<close>, in the order
  left subtree, node, right subtree.
\<close>

fun inorder_ptrs :: "tree \<Rightarrow> dir list \<Rightarrow> dir list list" where
  "inorder_ptrs (Tree l r par axis k sp) p =
     (case l of None \<Rightarrow> [] | Some c \<Rightarrow> inorder_ptrs c (L # p)) @ [p] @
     (case r of None \<Rightarrow> [] | Some c \<Rightarrow> inorder_ptrs c (R # p))"

text \<open>A loop body run over a list of pointers, stopping at the first failure.\<close>

fun run_body :: "(dir list \<Rightarrow> 's \<Rightarrow> error + 's) \<Rightarrow> dir list list \<Rightarrow> 's \<Rightarrow> error + 's" where
  "run_body body [] s = Inr s"
| "run_body body (p # ps) s =
     (case body p s of Inl e \<Rightarrow> Inl e | Inr s' \<Rightarrow> run_body body ps s')"

text \<open>The body of the brute-force loop over a list of points.\<close>

fun scan ::
  "scalar \<Rightarrow> point \<Rightarrow> point list \<Rightarrow> point option \<times> int \<Rightarrow> error + point option \<times> int"
  where
  "scan ty q [] best = Inr best"
| "scan ty q (p # ps) best =
     (case distance_to ty p q of
        Inl e \<Rightarrow> Inl e
      | Inr dist_p \<Rightarrow> scan ty q ps (if dist_p < snd best then (Some p, dist_p) else best))"

text \<open>
  What a search over the points \<open>S\<close> does to the running best \<open>s\<close>: the distance never
  grows, it ends at most at the distance of every point of \<open>S\<close>, and the state either is
  unchanged or is a point of \<open>S\<close> (as \<open>ptr\<close> stores it) with its own, smaller distance.
\<close>

definition improved ::
  "point \<Rightarrow> 'b \<times> int \<Rightarrow> (point \<Rightarrow> 'b) \<Rightarrow> point set \<Rightarrow> 'b \<times> int \<Rightarrow> bool" where
  "improved q s ptr S s' =
     (snd s' \<le> snd s \<and> (\<forall>p \<in> S. snd s' \<le> sqd p q) \<and>
      (s' = s \<or> (\<exists>p \<in> S. fst s' = ptr p \<and> sqd p q = snd s' \<and> snd s' < snd s)))"

definition pts_opt :: "tree option \<Rightarrow> point set" where
  "pts_opt c = (case c of None \<Rightarrow> {} | Some t \<Rightarrow> set (points_of t))"

text \<open>
  Where \<^verbatim>\<open>operator++\<close> goes from the node \<open>node\<close> at \<open>p\<close> when it has no right child.
\<close>

definition leave :: "tree \<Rightarrow> dir list \<Rightarrow> tree \<Rightarrow> (error + nodeptr) option" where
  "leave root_node p node =
     (case parent node of
        None \<Rightarrow> Some (Inl undefined_behaviour)
      | Some parent_var \<Rightarrow> climb root_node p parent_var)"

text \<open>
  At every node with \<open>n\<close> points below and including it, the left subtree holds
  \<open>n div 2\<close> of them and the right subtree \<open>(n + 1) div 2 - 1\<close>.
\<close>

fun median_split :: "tree \<Rightarrow> bool" where
  "median_split (Tree l r par axis k sp) =
     ((case l of
         None \<Rightarrow> length (points_of (Tree l r par axis k sp)) div 2 = 0
       | Some c \<Rightarrow> length (points_of c) = length (points_of (Tree l r par axis k sp)) div 2 \<and>
                  median_split c) \<and>
      (case r of
         None \<Rightarrow> (length (points_of (Tree l r par axis k sp)) + 1) div 2 - 1 = 0
       | Some c \<Rightarrow> length (points_of c) =
                    (length (points_of (Tree l r par axis k sp)) + 1) div 2 - 1 \<and>
                  median_split c))"

text \<open>
  The example of the driver \<^verbatim>\<open>nearest_neighbor.cpp\<close>: six points in the plane, and
  the tree built from them.
\<close>

definition wikipedia_points :: "point list" where
  "wikipedia_points = [[2, 3], [5, 4], [9, 6], [4, 7], [8, 1], [7, 2]]"

definition wikipedia_tree :: tree where
  "wikipedia_tree =
     Tree (Some (Tree (Some (Tree None None (Some (Some [L])) 0 2 [2, 3]))
                      (Some (Tree None None (Some (Some [L])) 0 2 [4, 7]))
                   (Some (Some [])) 1 2 [5, 4]))
          (Some (Tree (Some (Tree None None (Some (Some [R])) 0 2 [8, 1])) None
                   (Some (Some [])) 1 2 [9, 6]))
          (Some None) 0 2 [7, 2]"

section \<open>Arithmetic in the scalar type\<close>

lemma two_power_bits: "(2::int) ^ bits ty = 2 * 2 ^ (bits ty - 1)"
  by (cases ty) simp_all


lemma numeric_max_nonneg: "0 \<le> numeric_max ty"
  by (cases ty) (simp_all add: numeric_max_def)


lemma wrap_mod: "wrap ty x mod 2 ^ bits ty = x mod 2 ^ bits ty"
  by (simp add: wrap_def mod_diff_left_eq)

lemma wrap_cong: "x mod 2 ^ bits ty = y mod 2 ^ bits ty \<Longrightarrow> wrap ty x = wrap ty y"
  using mod_add_cong[of x "2 ^ bits ty" y "2 ^ (bits ty - 1)" "2 ^ (bits ty - 1)"]
  by (simp add: wrap_def)

lemma wrap_square_diff: "wrap ty (wrap ty x * wrap ty x) mod 2 ^ bits ty = (x * x) mod 2 ^ bits ty"
  unfolding wrap_mod by (rule mod_mult_cong) (rule wrap_mod)+

lemma wrap_accumulate:
  "wrap ty (wrap ty t + wrap ty (wrap ty x * wrap ty x)) = wrap ty (t + x * x)"
  by (rule wrap_cong) (rule mod_add_cong, rule wrap_mod, rule wrap_square_diff)


lemma wrap_id:
  assumes "representable ty x"
  shows "wrap ty x = x"
proof (cases "is_signed ty")
  case True
  with assms have "0 \<le> x + 2 ^ (bits ty - 1)" "x + 2 ^ (bits ty - 1) < 2 ^ bits ty"
    by (simp_all add: representable_def numeric_max_def two_power_bits)
  then have "(x + 2 ^ (bits ty - 1)) mod 2 ^ bits ty = x + 2 ^ (bits ty - 1)"
    by (rule mod_pos_pos_trivial)
  then show ?thesis using True by (simp add: wrap_def)
next
  case False
  with assms have "0 \<le> x" "x < 2 ^ bits ty"
    by (simp_all add: representable_def numeric_max_def)
  then have "x mod 2 ^ bits ty = x"
    by (rule mod_pos_pos_trivial)
  then show ?thesis using False by (simp add: wrap_def)
qed

lemma representable_nonneg: "0 \<le> x \<Longrightarrow> x \<le> numeric_max ty \<Longrightarrow> representable ty x"
  using numeric_max_nonneg[of ty] by (simp add: representable_def)


lemma le_square:
  fixes x :: int
  shows "x \<le> x * x"
proof (cases "x \<le> 0")
  case True
  then show ?thesis using zero_le_square[of x] by linarith
next
  case False
  then have "x * 1 \<le> x * x" by (intro mult_left_mono) simp_all
  then show ?thesis by simp
qed

lemma representable_root:
  fixes x :: int
  assumes "is_signed ty" and "x * x \<le> numeric_max ty"
  shows "representable ty x"
proof -
  have "x \<le> x * x" "- x \<le> (- x) * (- x)" by (rule le_square)+
  with assms show ?thesis by (simp add: representable_def)
qed

section \<open>Points\<close>

lemma sqd_nonneg: "0 \<le> sqd p q"
  unfolding sqd_def by (rule sum_list_nonneg) auto

lemma distance_loop_wrap:
  "\<forall>i \<in> set js. i < length other \<Longrightarrow>
   distance_loop ty p other js (wrap ty t) =
     Inr (wrap ty (t + (\<Sum>i\<leftarrow>js. (p ! i - other ! i) * (p ! i - other ! i))))"
proof (induction js arbitrary: t)
  case Nil
  show ?case by simp
next
  case (Cons i js)
  have "distance_loop ty p other (i # js) (wrap ty t) =
      distance_loop ty p other js (wrap ty (t + (p ! i - other ! i) * (p ! i - other ! i)))"
    using Cons.prems by (simp add: point_at_def wrap_accumulate)
  also have "\<dots> = Inr (wrap ty (t + (p ! i - other ! i) * (p ! i - other ! i)
      + (\<Sum>i\<leftarrow>js. (p ! i - other ! i) * (p ! i - other ! i))))"
    using Cons.prems by (intro Cons.IH) simp
  finally show ?case by (simp add: add.assoc)
qed

text \<open>
  The distance the code computes is the squared Euclidean distance reduced into \<^verbatim>\<open>T\<close>,
  and is that distance itself when it is at most \<open>numeric_max\<close>.
\<close>

lemma distance_to_wrap: "length p \<le> length q \<Longrightarrow> distance_to ty p q = Inr (wrap ty (sqd p q))"
proof -
  assume len: "length p \<le> length q"
  have 0: "wrap ty 0 = 0"
    by (rule wrap_id) (simp add: representable_nonneg numeric_max_nonneg)
  have "distance_loop ty p q [0..<length p] (wrap ty 0) = Inr (wrap ty (0 + sqd p q))"
    unfolding sqd_def using len by (intro distance_loop_wrap) simp
  then show ?thesis by (simp add: distance_to_def 0)
qed

lemma distance_to_Inr:
  "length p \<le> length q \<Longrightarrow> sqd p q \<le> numeric_max ty \<Longrightarrow> distance_to ty p q = Inr (sqd p q)"
  by (simp add: distance_to_wrap wrap_id representable_nonneg sqd_nonneg)

lemma distance_loop_Inl:
  "\<exists>i \<in> set js. length other \<le> i \<Longrightarrow> distance_loop ty p other js tot = Inl out_of_range"
  by (induction js arbitrary: tot) (auto simp: point_at_def)

lemma distance_to_Inl: "length q < length p \<Longrightarrow> distance_to ty p q = Inl out_of_range"
  unfolding distance_to_def by (rule distance_loop_Inl) (auto intro: bexI[of _ "length q"])

lemma sqd_ge_coordinate:
  assumes "axis < length p"
  shows "(q ! axis - p ! axis) * (q ! axis - p ! axis) \<le> sqd p q"
proof -
  have "sqd p q = (\<Sum>i\<in>{0..<length p}. (p ! i - q ! i) * (p ! i - q ! i))"
    by (simp add: sqd_def interv_sum_list_conv_sum_set_nat)
  moreover have "(p ! axis - q ! axis) * (p ! axis - q ! axis)
      \<le> (\<Sum>i\<in>{0..<length p}. (p ! i - q ! i) * (p ! i - q ! i))"
    by (rule member_le_sum) (use assms in auto)
  moreover have "(q ! axis - p ! axis) * (q ! axis - p ! axis)
      = (p ! axis - q ! axis) * (p ! axis - q ! axis)"
    by (simp add: algebra_simps)
  ultimately show ?thesis by simp
qed

lemma square_mono_away:
  fixes x d :: int
  assumes "(0 < d \<and> d \<le> x) \<or> (d \<le> 0 \<and> x \<le> d)"
  shows "d * d \<le> x * x"
proof -
  have "\<bar>d\<bar> \<le> \<bar>x\<bar>" using assms by auto
  then have "d\<^sup>2 \<le> x\<^sup>2" by (simp add: abs_le_square_iff[symmetric])
  then show ?thesis by (simp add: power2_eq_square)
qed


section \<open>Construction\<close>

lemma validate_ok:
  "\<forall>p \<in> set ps. int (length p) = c \<Longrightarrow> one = -1 \<or> one = c \<Longrightarrow> validate ps one = Inr ()"
  by (induction ps arbitrary: one) (auto simp: Let_def)

lemma validate_rejects:
  "p \<in> set ps \<Longrightarrow> int (length p) \<noteq> c \<Longrightarrow> c \<noteq> -1 \<Longrightarrow> validate ps c = Inl assertion_failed"
  by (induction ps) (auto simp: Let_def)

lemma sorts_insertion_sort: "sorts_by_axis insertion_sort"
  by (simp add: sorts_by_axis_def insertion_sort_def)

lemma sorted_range:
  assumes "sorts_by_axis srt" "\<forall>p \<in> set pts. length p = k" "0 < k"
  shows "mset (srt (depth mod k) pts) = mset pts"
    and "sorted (map (\<lambda>p. p ! (depth mod k)) (srt (depth mod k) pts))"
    and "length (srt (depth mod k) pts) = length pts"
    and "set (srt (depth mod k) pts) = set pts"
proof -
  have ax: "\<forall>p \<in> set pts. depth mod k < length p"
    using assms by simp
  with assms(1) show m: "mset (srt (depth mod k) pts) = mset pts"
    and "sorted (map (\<lambda>p. p ! (depth mod k)) (srt (depth mod k) pts))"
    unfolding sorts_by_axis_def by blast+
  from m show "length (srt (depth mod k) pts) = length pts"
    by (rule mset_eq_length)
  from m show "set (srt (depth mod k) pts) = set pts"
    by (rule mset_eq_setD)
qed

lemma set_parent_built:
  "set_parent v (built srt k this par pts depth) = built srt k this (Some v) pts depth"
  by (subst (1 2) built.simps) (simp add: set_parent_def)

lemma RecursiveInit_built:
  "sorts_by_axis srt \<Longrightarrow> pts \<noteq> [] \<Longrightarrow> \<forall>p \<in> set pts. length p = k \<Longrightarrow> 0 < k \<Longrightarrow>
   RecursiveInit srt this pts depth =
     Inr (built srt k this (if depth = 0 then Some None else None) pts depth)"
proof (induction pts arbitrary: this depth rule: length_induct)
  case (1 pts)
  note IH = "1.IH"[rule_format, OF _ "1.prems"(1) _ _ "1.prems"(4)]
  let ?s = "srt (depth mod k) pts"
  let ?n = "length pts"
  note sr = sorted_range[OF "1.prems"(1,3,4), of depth]
  have hd: "length (hd pts) = k"
    using "1.prems" by simp
  have val: "validate pts (-1) = Inr ()"
    by (rule validate_ok[of _ "int k"]) (use "1.prems" in auto)
  have "depth mod k < k"
    using "1.prems"(4) by simp
  then have noshort: "\<not> (\<exists>p \<in> set pts. length p \<le> depth mod k)"
    using "1.prems"(3) by auto
  have left: "RecursiveInit srt (L # this) (take (?n div 2) ?s) (depth + 1)
      = Inr (built srt k (L # this) None (take (?n div 2) ?s) (depth + 1))" if "?n div 2 \<noteq> 0"
  proof -
    have "length (take (?n div 2) ?s) < ?n"
      using that by simp
    moreover have "take (?n div 2) ?s \<noteq> []"
      using that sr(3) by auto
    moreover have "\<forall>p \<in> set (take (?n div 2) ?s). length p = k"
      using sr(4) "1.prems"(3) by (auto dest: in_set_takeD)
    ultimately show ?thesis
      using IH[of "take (?n div 2) ?s" "L # this" "depth + 1"] by simp
  qed
  have right: "RecursiveInit srt (R # this) (take (?n - (?n div 2 + 1)) (drop (?n div 2 + 1) ?s))
        (depth + 1)
      = Inr (built srt k (R # this) None (take (?n - (?n div 2 + 1)) (drop (?n div 2 + 1) ?s))
          (depth + 1))"
    if "?n - (?n div 2 + 1) \<noteq> 0"
  proof -
    let ?r = "take (?n - (?n div 2 + 1)) (drop (?n div 2 + 1) ?s)"
    have "length ?r < ?n"
      using that by simp
    moreover have "?r \<noteq> []"
      using that sr(3) by auto
    moreover have "\<forall>p \<in> set ?r. length p = k"
      using sr(4) "1.prems"(3) by (auto dest!: in_set_takeD in_set_dropD)
    ultimately show ?thesis
      using IH[of ?r "R # this" "depth + 1"] by simp
  qed
  have n0: "0 < ?n" using "1.prems"(2) by simp
  have v: "(if depth = 0 then validate pts (-1) else Inr ()) = Inr ()"
    by (simp add: val)
  have short: "(2 \<le> ?n \<and> (\<exists>p \<in> set pts. length p \<le> depth mod k)) = False"
    using noshort by simp
  have k0: "(k = 0) = False"
    using "1.prems"(4) by simp
  have unfold: "RecursiveInit srt this pts depth =
      (case (if ?n div 2 \<le> 0 then Inr None
             else (case RecursiveInit srt (L # this) (take (?n div 2) ?s) (depth + 1) of
                     Inl e \<Rightarrow> Inl e
                   | Inr c \<Rightarrow> Inr (Some (set_parent (Some this) c)))) of
         Inl e \<Rightarrow> Inl e
       | Inr l \<Rightarrow>
          (case (if ?n - (?n div 2 + 1) \<le> 0 then Inr None
                 else (case RecursiveInit srt (R # this)
                              (take (?n - (?n div 2 + 1)) (drop (?n div 2 + 1) ?s))
                              (depth + 1) of
                         Inl e \<Rightarrow> Inl e
                       | Inr c \<Rightarrow> Inr (Some (set_parent (Some this) c)))) of
             Inl e \<Rightarrow> Inl e
           | Inr r \<Rightarrow>
               Inr (Tree l r (if depth = 0 then Some None else None)
                      (depth mod k) k (?s ! (?n div 2)))))"
    apply (subst RecursiveInit.simps)
    apply (simp only: v sum.case "1.prems"(2) if_False hd Let_def short)
    apply (simp only: k0 if_False)
    done
  show ?case
  proof (cases "?n div 2 = 0")
    case True
    then have "?n - (?n div 2 + 1) = 0" using n0 by arith
    with True show ?thesis
      by (simp add: unfold built.simps[of srt k this _ pts] set_parent_built)
  next
    case False
    note l = left[OF False]
    show ?thesis
    proof (cases "?n - (?n div 2 + 1) = 0")
      case True
      with False l show ?thesis
        by (simp add: unfold built.simps[of srt k this _ pts] set_parent_built)
    next
      case nz: False
      note r = right[OF nz]
      from False nz l r show ?thesis
        by (simp add: unfold built.simps[of srt k this _ pts] set_parent_built)
    qed
  qed
qed

lemma Tree_of_built:
  assumes "sorts_by_axis srt" "pts \<noteq> []" "\<forall>p \<in> set pts. length p = k" "0 < k"
  shows "Tree_of srt pts = Inr (built srt k [] (Some None) pts 0)"
  using RecursiveInit_built[OF assms, of "[]" 0] by (simp add: Tree_of_def)

lemma built_induct [consumes 4, case_names node]:
  assumes "sorts_by_axis srt" "pts \<noteq> []" "\<forall>p \<in> set pts. length p = k" "0 < k"
  assumes step: "\<And>this par pts depth s m lpts rpts.
     pts \<noteq> [] \<Longrightarrow> \<forall>p \<in> set pts. length p = k \<Longrightarrow>
     s = srt (depth mod k) pts \<Longrightarrow> mset s = mset pts \<Longrightarrow>
     sorted (map (\<lambda>p. p ! (depth mod k)) s) \<Longrightarrow>
     m = length pts div 2 \<Longrightarrow> lpts = take m s \<Longrightarrow> rpts = drop (m + 1) s \<Longrightarrow>
     s = lpts @ [s ! m] @ rpts \<Longrightarrow>
     length rpts \<le> length lpts \<Longrightarrow> length lpts \<le> length rpts + 1 \<Longrightarrow>
     (lpts \<noteq> [] \<Longrightarrow> P (L # this) (Some (Some this)) lpts (depth + 1)) \<Longrightarrow>
     (rpts \<noteq> [] \<Longrightarrow> P (R # this) (Some (Some this)) rpts (depth + 1)) \<Longrightarrow>
     built srt k this par pts depth =
       Tree (if lpts = [] then None
             else Some (built srt k (L # this) (Some (Some this)) lpts (depth + 1)))
            (if rpts = [] then None
             else Some (built srt k (R # this) (Some (Some this)) rpts (depth + 1)))
            par (depth mod k) k (s ! m) \<Longrightarrow>
     P this par pts depth"
  shows "P this par pts depth"
  using assms
proof (induction srt k this par pts depth rule: built.induct)
  case (1 srt' k' this par pts depth)
  let ?s = "srt' (depth mod k') pts"
  let ?n = "length pts"
  let ?m = "?n div 2"
  note sr = sorted_range[OF "1.prems"(1,3,4), of depth]
  have n0: "0 < ?n" using "1.prems"(2) by simp
  then have m: "?m < length ?s" using sr(3) by simp
  have r_eq: "take (?n - (?m + 1)) (drop (?m + 1) ?s) = drop (?m + 1) ?s"
    using sr(3) by simp
  have lenl: "length (take ?m ?s) = ?m" using sr(3) by simp
  have lenr: "length (drop (?m + 1) ?s) = ?n - (?m + 1)" using sr(3) by simp
  have l_in: "\<forall>p \<in> set (take ?m ?s). length p = k'"
    using sr(4) "1.prems"(3) by (auto dest: in_set_takeD)
  have r_in: "\<forall>p \<in> set (drop (?m + 1) ?s). length p = k'"
    using sr(4) "1.prems"(3) by (auto dest: in_set_dropD)
  have lnil: "(take ?m ?s = []) = (?m = 0)"
    using lenl by (metis length_0_conv)
  have rnil: "(drop (?m + 1) ?s = []) = (?n - (?m + 1) = 0)"
    using lenr by (metis length_0_conv)
  show ?case
  proof (rule "1.prems"(5)[where s = ?s and m = ?m and lpts = "take ?m ?s"
        and rpts = "drop (?m + 1) ?s"])
    show "?s = take ?m ?s @ [?s ! ?m] @ drop (?m + 1) ?s"
      using id_take_nth_drop[OF m] by simp
    show "length (drop (?m + 1) ?s) \<le> length (take ?m ?s)"
      unfolding lenl lenr by arith
    show "length (take ?m ?s) \<le> length (drop (?m + 1) ?s) + 1"
      unfolding lenl lenr using n0 by arith
    show "P (L # this) (Some (Some this)) (take ?m ?s) (depth + 1)"
      if "take ?m ?s \<noteq> []"
    proof (rule "1.IH"(1))
      show "?m \<noteq> 0" using that lnil by simp
      show "sorts_by_axis srt'" by (rule "1.prems"(1))
      show "take ?m ?s \<noteq> []" by (rule that)
      show "\<forall>p \<in> set (take ?m ?s). length p = k'" by (rule l_in)
      show "0 < k'" by (rule "1.prems"(4))
    qed (rule "1.prems"(5))
    show "P (R # this) (Some (Some this)) (drop (?m + 1) ?s) (depth + 1)"
      if "drop (?m + 1) ?s \<noteq> []"
    proof (rule "1.IH"(2)[unfolded r_eq])
      show "?n - (?m + 1) \<noteq> 0" using that rnil by simp
      show "sorts_by_axis srt'" by (rule "1.prems"(1))
      show "drop (?m + 1) ?s \<noteq> []" by (rule that)
      show "\<forall>p \<in> set (drop (?m + 1) ?s). length p = k'" by (rule r_in)
      show "0 < k'" by (rule "1.prems"(4))
    qed (rule "1.prems"(5))
    show "built srt' k' this par pts depth =
       Tree (if take ?m ?s = [] then None
             else Some (built srt' k' (L # this) (Some (Some this)) (take ?m ?s) (depth + 1)))
            (if drop (?m + 1) ?s = [] then None
             else Some (built srt' k' (R # this) (Some (Some this)) (drop (?m + 1) ?s)
                    (depth + 1)))
            par (depth mod k') k' (?s ! ?m)"
      by (subst built.simps) (simp only: lnil rnil r_eq)
  qed (use "1.prems" sr in auto)
qed

lemma built_root:
  assumes "sorts_by_axis srt" "pts \<noteq> []" "\<forall>p \<in> set pts. length p = k" "0 < k"
  shows "built srt k this par pts depth =
     Tree (if take (length pts div 2) (srt (depth mod k) pts) = [] then None
           else Some (built srt k (L # this) (Some (Some this))
                  (take (length pts div 2) (srt (depth mod k) pts)) (depth + 1)))
          (if drop (length pts div 2 + 1) (srt (depth mod k) pts) = [] then None
           else Some (built srt k (R # this) (Some (Some this))
                  (drop (length pts div 2 + 1) (srt (depth mod k) pts)) (depth + 1)))
          par (depth mod k) k (srt (depth mod k) pts ! (length pts div 2))"
  using assms
proof (induction this par pts depth rule: built_induct)
  case (node this par pts depth s m lpts rpts)
  show ?case
    using node.hyps(12) unfolding node.hyps(3,6,7,8) .
qed

lemma built_parent: "parent (built srt k this par pts depth) = par"
  by (subst built.simps) simp

lemma built_parents_linked:
  assumes "sorts_by_axis srt" "pts \<noteq> []" "\<forall>p \<in> set pts. length p = k" "0 < k"
  shows "parents_linked (built srt k this par pts depth) this"
  using assms
proof (induction this par pts depth rule: built_induct)
  case (node this par pts depth s m lpts rpts)
  show ?case
    using node.IH by (simp add: node.hyps(12) built_parent)
qed

lemma built_points:
  assumes "sorts_by_axis srt" "pts \<noteq> []" "\<forall>p \<in> set pts. length p = k" "0 < k"
  shows "mset (points_of (built srt k this par pts depth)) = mset pts"
  using assms
proof (induction this par pts depth rule: built_induct)
  case (node this par pts depth s m lpts rpts)
  have "mset (points_of (built srt k this par pts depth)) = mset lpts + {#s ! m#} + mset rpts"
    using node.IH by (simp add: node.hyps(12))
  also have "\<dots> = mset s"
    by (subst (2) node.hyps(9)) simp
  finally show ?case using node.hyps(4) by simp
qed

lemma sub_range_sizes:
  assumes "\<forall>p \<in> set pts. length p = k" "mset s = mset pts" "s = lpts @ [x] @ rpts"
  shows "\<forall>p \<in> set lpts. length p = k" and "\<forall>p \<in> set rpts. length p = k" and "length x = k"
proof -
  have "set s = set pts" using assms(2) by (rule mset_eq_setD)
  then have *: "\<forall>p \<in> set s. length p = k" using assms(1) by simp
  show "\<forall>p \<in> set lpts. length p = k" "\<forall>p \<in> set rpts. length p = k" "length x = k"
    using * by (subst (asm) assms(3), simp)+
qed

lemma built_ordered:
  assumes "sorts_by_axis srt" "pts \<noteq> []" "\<forall>p \<in> set pts. length p = k" "0 < k"
  shows "ordered (built srt k this par pts depth)"
  using assms
proof (induction this par pts depth rule: built_induct)
  case (node this par pts depth s m lpts rpts)
  note sz = sub_range_sizes[OF node.hyps(2,4,9)]
  let ?f = "\<lambda>p. p ! (depth mod k)"
  have "sorted (map ?f (lpts @ [s ! m] @ rpts))"
    using node.hyps(5) by (subst (asm) node.hyps(9))
  then have "\<forall>p \<in> set lpts. ?f p \<le> ?f (s ! m)" and "\<forall>p \<in> set rpts. ?f (s ! m) \<le> ?f p"
    by (auto simp: sorted_append)
  moreover have "depth mod k < k" using assms(4) by simp
  ultimately have le: "\<forall>p \<in> set lpts. coord_le (depth mod k) p (s ! m)"
    and ge: "\<forall>p \<in> set rpts. coord_le (depth mod k) (s ! m) p"
    using sz by (auto simp: coord_le_def point_at_def)
  have l: "set (points_of (built srt k (L # this) (Some (Some this)) lpts (depth + 1))) = set lpts"
    if "lpts \<noteq> []"
    using built_points[OF assms(1) that sz(1) assms(4)] by (rule mset_eq_setD)
  have r: "set (points_of (built srt k (R # this) (Some (Some this)) rpts (depth + 1))) = set rpts"
    if "rpts \<noteq> []"
    using built_points[OF assms(1) that sz(2) assms(4)] by (rule mset_eq_setD)
  show ?case
    using node.IH le ge l r by (simp add: node.hyps(12) list_all_iff)
qed

lemma built_cycles_axes:
  assumes "sorts_by_axis srt" "pts \<noteq> []" "\<forall>p \<in> set pts. length p = k" "0 < k"
  shows "cycles_axes k depth (built srt k this par pts depth)"
  using assms
proof (induction this par pts depth rule: built_induct)
  case (node this par pts depth s m lpts rpts)
  note sz = sub_range_sizes[OF node.hyps(2,4,9)]
  show ?case
    using node.IH sz(3) by (simp add: node.hyps(12))
qed

lemma cycles_axes_lengths: "cycles_axes k depth t \<Longrightarrow> \<forall>p \<in> set (points_of t). length p = k"
  by (induction t arbitrary: depth) (fastforce split: option.splits)

lemma built_right_implies_left:
  assumes "sorts_by_axis srt" "pts \<noteq> []" "\<forall>p \<in> set pts. length p = k" "0 < k"
  shows "right_implies_left (built srt k this par pts depth)"
  using assms
proof (induction this par pts depth rule: built_induct)
  case (node this par pts depth s m lpts rpts)
  have "rpts \<noteq> [] \<Longrightarrow> lpts \<noteq> []"
    using node.hyps(10) by auto
  then show ?case
    using node.IH by (auto simp add: node.hyps(12))
qed

lemma built_median_split:
  assumes "sorts_by_axis srt" "pts \<noteq> []" "\<forall>p \<in> set pts. length p = k" "0 < k"
  shows "median_split (built srt k this par pts depth)"
  using assms
proof (induction this par pts depth rule: built_induct)
  case (node this par pts depth s m lpts rpts)
  note sz = sub_range_sizes[OF node.hyps(2,4,9)]
  have n: "length (points_of (built srt k this par pts depth)) = length pts"
    using built_points[OF assms(1) node.hyps(1,2) assms(4)] by (rule mset_eq_length)
  have ls: "length s = length pts"
    using node.hyps(4) by (rule mset_eq_length)
  have ll: "length lpts = length pts div 2"
    unfolding node.hyps(7,6) using ls by simp
  have lr: "length rpts = (length pts + 1) div 2 - 1"
    unfolding node.hyps(8,6) using ls by simp
  have l: "length (points_of (built srt k (L # this) (Some (Some this)) lpts (depth + 1)))
      = length lpts" if "lpts \<noteq> []"
    using built_points[OF assms(1) that sz(1) assms(4)] by (rule mset_eq_length)
  have r: "length (points_of (built srt k (R # this) (Some (Some this)) rpts (depth + 1)))
      = length rpts" if "rpts \<noteq> []"
    using built_points[OF assms(1) that sz(2) assms(4)] by (rule mset_eq_length)
  let ?T = "Tree (if lpts = [] then None
             else Some (built srt k (L # this) (Some (Some this)) lpts (depth + 1)))
            (if rpts = [] then None
             else Some (built srt k (R # this) (Some (Some this)) rpts (depth + 1)))
            par (depth mod k) k (s ! m)"
  have nT: "length (points_of ?T) = length pts"
    using n unfolding node.hyps(12) .
  have "median_split ?T"
    apply (subst median_split.simps)
    apply (simp only: nT)
    using node.IH l r ll lr apply auto
    done
  then show ?case by (simp only: node.hyps(12))
qed

lemma height_pos: "0 < height t"
  by (cases t) simp

lemma built_height:
  assumes "sorts_by_axis srt" "pts \<noteq> []" "\<forall>p \<in> set pts. length p = k" "0 < k"
  shows "length pts < 2 ^ height (built srt k this par pts depth) \<and>
         2 ^ height (built srt k this par pts depth) \<le> 2 * length pts"
  using assms
proof (induction this par pts depth rule: built_induct)
  case (node this par pts depth s m lpts rpts)
  let ?hl = "height (built srt k (L # this) (Some (Some this)) lpts (depth + 1))"
  let ?hr = "height (built srt k (R # this) (Some (Some this)) rpts (depth + 1))"
  have "length s = length lpts + 1 + length rpts"
    by (subst node.hyps(9)) simp
  then have len: "length pts = length lpts + 1 + length rpts"
    using mset_eq_length[OF node.hyps(4)] by simp
  show ?case
  proof (cases "lpts = []")
    case True
    then have "rpts = []" using node.hyps(10) by simp
    with True len show ?thesis by (simp add: node.hyps(12))
  next
    case lne: False
    then have L: "length lpts < 2 ^ ?hl" "2 ^ ?hl \<le> 2 * length lpts"
      using node.IH(1) by auto
    show ?thesis
    proof (cases "rpts = []")
      case True
      with lne L len node.hyps(11) show ?thesis by (simp add: node.hyps(12))
    next
      case rne: False
      then have R: "length rpts < 2 ^ ?hr" "2 ^ ?hr \<le> 2 * length rpts"
        using node.IH(2) by auto
      have "(2::nat) ^ ?hr \<le> 2 * length rpts" by (rule R(2))
      also have "\<dots> \<le> 2 * length lpts" using node.hyps(10) by simp
      also have "\<dots> < 2 * 2 ^ ?hl" using L(1) by simp
      finally have "(2::nat) ^ ?hr < 2 ^ (Suc ?hl)" by simp
      then have "?hr < Suc ?hl" by (rule power_less_imp_less_exp[rotated]) simp
      then have "max ?hl ?hr = ?hl" by simp
      with lne rne L len node.hyps(10,11) show ?thesis by (simp add: node.hyps(12))
    qed
  qed
qed

lemma points_of_nonempty: "points_of t \<noteq> []"
  by (cases t) simp

lemma split_point_in_points: "split_point t \<in> set (points_of t)"
  by (cases t) simp

lemma wikipedia_points_ok:
  "wikipedia_points \<noteq> []" "\<forall>p \<in> set wikipedia_points. length p = 2"
  by (simp_all add: wikipedia_points_def)

lemma wikipedia_tree_built: "Tree_of insertion_sort wikipedia_points = Inr wikipedia_tree"
  by code_simp

section \<open>Traversal\<close>

lemma run_body_append:
  "run_body body (ps @ qs) s =
     (case run_body body ps s of Inl e \<Rightarrow> Inl e | Inr s' \<Rightarrow> run_body body qs s')"
  by (induction ps arbitrary: s) (auto split: sum.splits)

lemma run_body_record:
  "run_body (\<lambda>p visited. Inr (visited @ [p])) ps vis = Inr (vis @ ps)"
  by (induction ps arbitrary: vis) auto

lemma node_at_append:
  "node_at t (xs @ ys) = (case node_at t xs of None \<Rightarrow> None | Some n \<Rightarrow> node_at n ys)"
proof (induction xs arbitrary: t)
  case Nil
  show ?case by simp
next
  case (Cons d xs)
  show ?case by (cases d) (auto simp: Cons.IH split: option.splits)
qed

lemma deref_Nil [simp]: "deref root_node [] = Some root_node"
  by (simp add: deref_def)

lemma deref_Cons:
  "deref root_node (d # p) =
     (case deref root_node p of
        None \<Rightarrow> None
      | Some n \<Rightarrow> (case d of L \<Rightarrow> left_child n | R \<Rightarrow> right_child n))"
  by (cases d) (auto simp: deref_def node_at_append split: option.splits)

lemma climb_null: "climb root_node p None = Some (Inr None)"
  by (subst climb.simps) simp

lemma climb_right:
  assumes "deref root_node p = Some n" "right_child n = Some c"
  shows "climb root_node (R # p) (Some p) = leave root_node p n"
  using assms by (subst climb.simps) (simp add: right_child_ptr_def leave_def)

lemma climb_left:
  assumes "deref root_node p = Some n" "left_child n = Some c"
  shows "climb root_node (L # p) (Some p) = Some (Inr (Some p))"
  using assms
  by (subst climb.simps) (auto simp: right_child_ptr_def deref_Cons split: option.splits)

lemma incr_no_right:
  assumes "deref root_node p = Some n" "right_child n = None"
  shows "incr root_node p = leave root_node p n"
  using assms by (simp add: incr_def leave_def)

lemma incr_right:
  assumes "deref root_node p = Some n" "right_child n = Some c"
  shows "incr root_node p = Some (Inr (Some (descend_left c (R # p))))"
  using assms by (simp add: incr_def)

lemma for_loop_from_subtree:
  "deref root_node a = Some t \<Longrightarrow> parents_linked t a \<Longrightarrow>
   for_loop root_node body (Some (descend_left t a)) s =
     (case run_body body (inorder_ptrs t a) s of
        Inl e \<Rightarrow> Some (Inl e)
      | Inr s' \<Rightarrow>
         (case leave root_node a t of
            None \<Rightarrow> None
          | Some (Inl e) \<Rightarrow> Some (Inl e)
          | Some (Inr it) \<Rightarrow> for_loop root_node body it s'))"
proof (induction t arbitrary: a s)
  case (Tree l r par axis k sp)
  let ?t = "Tree l r par axis k sp"
  let ?rest = "\<lambda>s'. (case leave root_node a ?t of
            None \<Rightarrow> None
          | Some (Inl e) \<Rightarrow> Some (Inl e)
          | Some (Inr it) \<Rightarrow> for_loop root_node body it s')"
  have at_a: "deref root_node a = Some ?t" by (rule Tree.prems(1))
  have right_part: "(case incr root_node a of
          None \<Rightarrow> None
        | Some (Inl e) \<Rightarrow> Some (Inl e)
        | Some (Inr it') \<Rightarrow> for_loop root_node body it' s2) =
      (case run_body body (case r of None \<Rightarrow> [] | Some c \<Rightarrow> inorder_ptrs c (R # a)) s2 of
         Inl e \<Rightarrow> Some (Inl e) | Inr s' \<Rightarrow> ?rest s')" for s2
  proof (cases r)
    case None
    then show ?thesis by (simp add: incr_no_right[OF at_a])
  next
    case (Some c)
    have c_at: "deref root_node (R # a) = Some c"
      by (simp add: deref_Cons at_a Some)
    have c_par: "parent c = Some (Some a)" and c_linked: "parents_linked c (R # a)"
      using Tree.prems(2) Some by auto
    have "for_loop root_node body (Some (descend_left c (R # a))) s2 =
        (case run_body body (inorder_ptrs c (R # a)) s2 of
           Inl e \<Rightarrow> Some (Inl e)
         | Inr s' \<Rightarrow> (case leave root_node (R # a) c of
              None \<Rightarrow> None
            | Some (Inl e) \<Rightarrow> Some (Inl e)
            | Some (Inr it) \<Rightarrow> for_loop root_node body it s'))"
      using Some c_at c_linked by (intro Tree.IH(2)) auto
    moreover have "leave root_node (R # a) c = leave root_node a ?t"
      using climb_right[OF at_a, of c] Some by (simp add: leave_def[of _ "R # a"] c_par)
    ultimately show ?thesis
      using Some by (simp add: incr_right[OF at_a] cong: sum.case_cong)
  qed
  have from_a: "for_loop root_node body (Some a) s1 =
      (case run_body body ([a] @ (case r of None \<Rightarrow> [] | Some c \<Rightarrow> inorder_ptrs c (R # a))) s1 of
         Inl e \<Rightarrow> Some (Inl e) | Inr s' \<Rightarrow> ?rest s')" for s1
    by (subst for_loop.simps) (simp add: right_part split: sum.splits)
  show ?case
  proof (cases l)
    case None
    then show ?thesis using from_a[of s] by simp
  next
    case (Some c)
    have c_at: "deref root_node (L # a) = Some c"
      by (simp add: deref_Cons at_a Some)
    have c_par: "parent c = Some (Some a)" and c_linked: "parents_linked c (L # a)"
      using Tree.prems(2) Some by auto
    have "for_loop root_node body (Some (descend_left c (L # a))) s =
        (case run_body body (inorder_ptrs c (L # a)) s of
           Inl e \<Rightarrow> Some (Inl e)
         | Inr s' \<Rightarrow> (case leave root_node (L # a) c of
              None \<Rightarrow> None
            | Some (Inl e) \<Rightarrow> Some (Inl e)
            | Some (Inr it) \<Rightarrow> for_loop root_node body it s'))"
      using Some c_at c_linked by (intro Tree.IH(1)) auto
    moreover have "leave root_node (L # a) c = Some (Inr (Some a))"
      using climb_left[OF at_a, of c] Some by (simp add: leave_def c_par)
    ultimately show ?thesis
      using Some from_a by (simp add: run_body_append cong: sum.case_cong split: sum.splits)
  qed
qed

lemma for_loop_whole_tree:
  assumes "parent root_node = Some None" "parents_linked root_node []"
  shows "for_loop root_node body (Some (descend_left root_node [])) s =
     Some (run_body body (inorder_ptrs root_node []) s)"
  using assms
  by (subst for_loop_from_subtree[where t = root_node])
    (auto simp: leave_def climb_null for_loop.simps split: sum.splits)

lemma TreeIterator_descend_left:
  "right_implies_left t \<Longrightarrow> TreeIterator t a = descend_left t a"
  by (induction t arbitrary: a) (auto split: option.splits)

lemma descend_left_steps: "set (descend_left t a) \<subseteq> insert L (set a)"
  by (induction t arbitrary: a) (fastforce split: option.splits)

lemma traverse_inorder:
  assumes "right_implies_left root_node" "parent root_node = Some None"
    "parents_linked root_node []"
  shows "traverse root_node = Some (Inr (inorder_ptrs root_node []))"
  using assms
  by (simp add: traverse_def begin_it_def TreeIterator_descend_left for_loop_whole_tree
      run_body_record)

lemma length_inorder_ptrs: "length (inorder_ptrs t a) = length (points_of t)"
  by (induction t arbitrary: a) (auto split: option.splits)

lemma inorder_ptrs_suffix: "p \<in> set (inorder_ptrs t a) \<Longrightarrow> suffix a p"
proof (induction t arbitrary: a p)
  case (Tree l r par axis k sp)
  have "suffix (d # a) p \<Longrightarrow> suffix a p" for d
    by (rule suffix_ConsD)
  with Tree show ?case
    by (fastforce split: option.splits)
qed

lemma distinct_inorder_ptrs: "distinct (inorder_ptrs t a)"
proof (induction t arbitrary: a)
  case (Tree l r par axis k sp)
  have not_self: "a \<notin> set (inorder_ptrs c (d # a))" for c d
    using inorder_ptrs_suffix[of a c "d # a"] suffix_length_le[of "d # a" a] by auto
  have disj: "set (inorder_ptrs c (L # a)) \<inter> set (inorder_ptrs c' (R # a)) = {}" for c c'
  proof (rule ccontr)
    assume "set (inorder_ptrs c (L # a)) \<inter> set (inorder_ptrs c' (R # a)) \<noteq> {}"
    then obtain p where "suffix (L # a) p" "suffix (R # a) p"
      using inorder_ptrs_suffix by blast
    then have "suffix (L # a) (R # a) \<or> suffix (R # a) (L # a)"
      by (rule suffix_same_cases[THEN disjE]) auto
    then show False
        using suffix_length_le[of "L # a" a] suffix_length_le[of "R # a" a]
      by (auto simp: suffix_Cons)
  qed
  show ?case
    using Tree.IH not_self disj by (auto split: option.splits)
qed

lemma star_inorder_ptrs:
  "deref root_node a = Some t \<Longrightarrow>
   map (star root_node) (inorder_ptrs t a) = map Inr (points_of t)"
proof (induction t arbitrary: a)
  case (Tree l r par axis k sp)
  have l: "map (star root_node) (inorder_ptrs c (L # a)) = map Inr (points_of c)"
    if "l = Some c" for c
    using that Tree.prems by (intro Tree.IH(1)) (auto simp: deref_Cons)
  have r: "map (star root_node) (inorder_ptrs c (R # a)) = map Inr (points_of c)"
    if "r = Some c" for c
    using that Tree.prems by (intro Tree.IH(2)) (auto simp: deref_Cons)
  have "star root_node a = Inr sp"
    using Tree.prems by (simp add: star_def)
  then show ?case
    using l r by (auto split: option.splits)
qed

lemma inorder_ptrs_valid:
  "deref root_node a = Some t \<Longrightarrow> p \<in> set (inorder_ptrs t a) \<Longrightarrow> deref root_node p \<noteq> None"
proof (induction t arbitrary: a)
  case (Tree l r par axis k sp)
  have l: "deref root_node p \<noteq> None" if "l = Some c" "p \<in> set (inorder_ptrs c (L # a))" for c
    using that Tree.prems(1) by (intro Tree.IH(1)[of c "L # a"]) (auto simp: deref_Cons)
  have r: "deref root_node p \<noteq> None" if "r = Some c" "p \<in> set (inorder_ptrs c (R # a))" for c
    using that Tree.prems(1) by (intro Tree.IH(2)[of c "R # a"]) (auto simp: deref_Cons)
  show ?case
    using l r Tree.prems by (auto split: option.splits)
qed

lemma inorder_ptrs_complete:
  "node_at t ds = Some n \<Longrightarrow> rev ds @ a \<in> set (inorder_ptrs t a)"
proof (induction t arbitrary: a ds)
  case (Tree l r par axis k sp)
  show ?case
  proof (cases ds)
    case Nil
    then show ?thesis by simp
  next
    case (Cons d ds')
    show ?thesis
    proof (cases d)
      case L
      with Cons Tree.prems obtain c where c: "l = Some c" "node_at c ds' = Some n"
        by (auto split: option.splits)
      then have "rev ds' @ (L # a) \<in> set (inorder_ptrs c (L # a))"
        by (intro Tree.IH(1)) auto
      with c Cons L show ?thesis by simp
    next
      case R
      with Cons Tree.prems obtain c where c: "r = Some c" "node_at c ds' = Some n"
        by (auto split: option.splits)
      then have "rev ds' @ (R # a) \<in> set (inorder_ptrs c (R # a))"
        by (intro Tree.IH(2)) auto
      with c Cons R show ?thesis by simp
    qed
  qed
qed

lemma inorder_ptrs_ancestors:
  assumes "p \<in> set (inorder_ptrs root_node [])" "suffix a p"
  shows "a \<in> set (inorder_ptrs root_node [])"
proof -
  from assms(2) obtain b where p: "p = b @ a" by (auto simp: suffix_def)
  have "deref root_node p \<noteq> None"
    using inorder_ptrs_valid[of root_node "[]" root_node p] assms(1) by simp
  then have "node_at root_node (rev a @ rev b) \<noteq> None"
    by (simp add: deref_def p)
  then obtain n where "node_at root_node (rev a) = Some n"
    by (auto simp: node_at_append split: option.splits)
  from inorder_ptrs_complete[OF this, of "[]"] show ?thesis by simp
qed

section \<open>Search\<close>

lemma improved_refl: "\<forall>p \<in> S. snd s \<le> sqd p q \<Longrightarrow> improved q s ptr S s"
  by (simp add: improved_def)

lemma improved_trans:
  "improved q s ptr S1 s1 \<Longrightarrow> improved q s1 ptr S2 s2 \<Longrightarrow> improved q s ptr (S1 \<union> S2) s2"
  unfolding improved_def by (elim conjE disjE) (auto 4 3 intro: order_trans)

lemma improved_visit:
  "improved q (b, bd) ptr {p} (if sqd p q < bd then (ptr p, sqd p q) else (b, bd))"
  by (simp add: improved_def)

text \<open>
  The pruned search over a signed scalar type, when the squared distance of every point
  of the subtree is at most \<open>numeric_max\<close>: then no operation of the search wraps.
\<close>

lemma findNN_rec_improved:
  assumes "0 < k" "k \<le> length q" "is_signed ty"
  shows "ordered t \<Longrightarrow> cycles_axes k depth t \<Longrightarrow>
    \<forall>p \<in> set (points_of t). sqd p q \<le> numeric_max ty \<Longrightarrow>
    \<exists>s'. findNN_rec ty t q s = Inr s' \<and> improved q s (\<lambda>p. p) (set (points_of t)) s'"
proof (induction t arbitrary: depth s)
  case (Tree l r par axis k' sp)
  obtain bp bd where s: "s = (bp, bd)" by (cases s)
  from Tree.prems(2) have ax: "axis = depth mod k" and k': "k' = k" and sp: "length sp = k"
    and cl: "\<And>c. l = Some c \<Longrightarrow> cycles_axes k (depth + 1) c"
    and cr: "\<And>c. r = Some c \<Longrightarrow> cycles_axes k (depth + 1) c"
    by auto
  from Tree.prems(1) have ol: "\<And>c. l = Some c \<Longrightarrow> ordered c"
    and or: "\<And>c. r = Some c \<Longrightarrow> ordered c"
    and cle: "\<And>p. p \<in> pts_opt l \<Longrightarrow> coord_le axis p sp"
    and cge: "\<And>p. p \<in> pts_opt r \<Longrightarrow> coord_le axis sp p"
    by (auto simp: pts_opt_def list_all_iff split: option.splits)
  from Tree.prems(3) have fit_sp: "sqd sp q \<le> numeric_max ty"
    and fit_l: "\<And>c. l = Some c \<Longrightarrow> \<forall>p \<in> set (points_of c). sqd p q \<le> numeric_max ty"
    and fit_r: "\<And>c. r = Some c \<Longrightarrow> \<forall>p \<in> set (points_of c). sqd p q \<le> numeric_max ty"
    by auto
  have le: "p ! axis \<le> sp ! axis" if "p \<in> pts_opt l" for p
    using cle[OF that] by (auto simp: coord_le_def point_at_def split: if_splits)
  have ge: "sp ! axis \<le> p ! axis" if "p \<in> pts_opt r" for p
    using cge[OF that] by (auto simp: coord_le_def point_at_def split: if_splits)
  have axk: "axis < k" using ax assms(1) by simp
  have len_l: "\<And>p. p \<in> pts_opt l \<Longrightarrow> length p = k"
    using cl cycles_axes_lengths by (fastforce simp: pts_opt_def split: option.splits)
  have len_r: "\<And>p. p \<in> pts_opt r \<Longrightarrow> length p = k"
    using cr cycles_axes_lengths by (fastforce simp: pts_opt_def split: option.splits)
  define search where
    "search c st = (case c of None \<Rightarrow> Inr st | Some t \<Rightarrow> findNN_rec ty t q st)" for c st
  have child: "\<exists>s'. search c st = Inr s' \<and> improved q st (\<lambda>p. p) (pts_opt c) s'"
    if "c = l \<or> c = r" for c st
  proof (cases c)
    case None
    then show ?thesis by (simp add: search_def pts_opt_def improved_refl)
  next
    case (Some t)
    with that have "ordered t" "cycles_axes k (depth + 1) t" "t \<in> set_option l \<or> t \<in> set_option r"
      "\<forall>p \<in> set (points_of t). sqd p q \<le> numeric_max ty"
      using ol or cl cr fit_l fit_r by auto
    then show ?thesis
      using Tree.IH[of t "depth + 1" st] Some by (auto simp: search_def pts_opt_def)
  qed
  define best where "best = (if sqd sp q < bd then (sp, sqd sp q) else (bp, bd))"
  define d where "d = q ! axis - sp ! axis"
  define closer where "closer = (if d > 0 then r else l)"
  define farther where "farther = (if d > 0 then l else r)"
  have dd: "d * d \<le> numeric_max ty"
    using sqd_ge_coordinate[of axis sp q] axk sp fit_sp by (simp add: d_def)
  have wd: "wrap ty (q ! axis - sp ! axis) = d"
    unfolding d_def[symmetric] using assms(3) dd by (intro wrap_id representable_root)
  have wdd: "wrap ty (d * d) = d * d"
    using dd by (intro wrap_id representable_nonneg) simp_all
  have unfold: "findNN_rec ty (Tree l r par axis k' sp) q (bp, bd) =
      (case search closer best of
         Inl e \<Rightarrow> Inl e
       | Inr best' \<Rightarrow> (if d * d < snd best' then search farther best' else Inr best'))"
    unfolding best_def closer_def farther_def search_def
    using axk sp assms(2) fit_sp
    by (subst findNN_rec.simps)
      (simp add: distance_to_Inr point_at_def Let_def wd wdd cong: sum.case_cong)
  have visit: "improved q s (\<lambda>p. p) {sp} best"
    unfolding s best_def by (rule improved_visit)
  have "closer = l \<or> closer = r" "farther = l \<or> farther = r"
    by (simp_all add: closer_def farther_def)
  note cf = child[OF this(1)] child[OF this(2)]
  obtain s1 where s1: "search closer best = Inr s1"
    and i1: "improved q best (\<lambda>p. p) (pts_opt closer) s1"
    using cf(1)[of best] by blast
  have pts: "set (points_of (Tree l r par axis k' sp)) = {sp} \<union> pts_opt closer \<union> pts_opt farther"
    by (auto simp: closer_def farther_def pts_opt_def split: option.splits)
  have i01: "improved q s (\<lambda>p. p) ({sp} \<union> pts_opt closer) s1"
    using visit i1 by (rule improved_trans)
  show ?case
  proof (cases "d * d < snd s1")
    case True
    obtain s2 where s2: "search farther s1 = Inr s2"
      and i2: "improved q s1 (\<lambda>p. p) (pts_opt farther) s2"
      using cf(2)[of s1] by blast
    have "improved q s (\<lambda>p. p) ({sp} \<union> pts_opt closer \<union> pts_opt farther) s2"
      using i01 i2 by (rule improved_trans)
    then show ?thesis
      using True s1 s2 unfolding pts by (simp add: s unfold)
  next
    case False
    have far: "snd s1 \<le> sqd p q" if "p \<in> pts_opt farther" for p
    proof -
      have "length p = k" using that len_l len_r by (auto simp: farther_def split: if_splits)
      then have "(q ! axis - p ! axis) * (q ! axis - p ! axis) \<le> sqd p q"
        using axk by (intro sqd_ge_coordinate) simp
      moreover have "d * d \<le> (q ! axis - p ! axis) * (q ! axis - p ! axis)"
      proof (rule square_mono_away)
        show "0 < d \<and> d \<le> q ! axis - p ! axis \<or> d \<le> 0 \<and> q ! axis - p ! axis \<le> d"
          using that le[of p] ge[of p] by (auto simp: farther_def d_def split: if_splits)
      qed
      ultimately show ?thesis using False by simp
    qed
    have "improved q s1 (\<lambda>p. p) (pts_opt farther) s1"
      by (rule improved_refl) (use far in auto)
    with i01 have "improved q s (\<lambda>p. p) ({sp} \<union> pts_opt closer \<union> pts_opt farther) s1"
      by (rule improved_trans)
    then show ?thesis
      using False s1 unfolding pts by (simp add: s unfold)
  qed
qed

lemma run_body_scan:
  "map (star root_node) ptrs = map Inr ps \<Longrightarrow>
   run_body (brute_force_body ty root_node q) ptrs best = scan ty q ps best"
proof (induction ptrs arbitrary: ps best)
  case Nil
  then show ?case by simp
next
  case (Cons a ptrs)
  then obtain p ps' where ps: "ps = p # ps'" "star root_node a = Inr p"
      "map (star root_node) ptrs = map Inr ps'"
    by (cases ps) auto
  show ?case
    using Cons.IH[OF ps(3)] ps(1,2)
    by (auto simp: brute_force_body_def split: sum.splits)
qed

text \<open>The loop of the brute-force search on a constructed tree reads its points in order.\<close>

lemma brute_force_loop:
  assumes "sorts_by_axis srt" and "pts \<noteq> []" and "\<forall>p \<in> set pts. length p = k" and "0 < k"
  shows "for_loop (built srt k [] (Some None) pts 0)
           (brute_force_body ty (built srt k [] (Some None) pts 0) q)
           (begin_it (built srt k [] (Some None) pts 0)) s =
         Some (scan ty q (points_of (built srt k [] (Some None) pts 0)) s)"
proof -
  let ?t = "built srt k [] (Some None) pts 0"
  have ril: "right_implies_left ?t"
    using assms by (rule built_right_implies_left)
  show ?thesis
    using built_parents_linked[OF assms, where this = "[]" and par = "Some None" and depth = 0]
    by (simp add: begin_it_def TreeIterator_descend_left[OF ril] for_loop_whole_tree
        built_parent run_body_scan[OF star_inorder_ptrs])
qed

lemma scan_improved:
  "\<forall>p \<in> set ps. length p \<le> length q \<and> sqd p q \<le> numeric_max ty \<Longrightarrow>
   \<exists>s'. scan ty q ps s = Inr s' \<and> improved q s Some (set ps) s'"
proof (induction ps arbitrary: s)
  case Nil
  show ?case by (simp add: improved_def)
next
  case (Cons p ps)
  obtain b bd where s: "s = (b, bd)" by (cases s)
  define s1 where "s1 = (if sqd p q < bd then (Some p, sqd p q) else (b, bd))"
  have v: "improved q s Some {p} s1"
    unfolding s s1_def by (rule improved_visit)
  from Cons obtain s' where s': "scan ty q ps s1 = Inr s'" "improved q s1 Some (set ps) s'"
    by fastforce
  have "improved q s Some ({p} \<union> set ps) s'"
    using v s'(2) by (rule improved_trans)
  moreover have "scan ty q (p # ps) s = scan ty q ps s1"
    using Cons.prems by (simp add: distance_to_Inr s s1_def)
  ultimately show ?case using s'(1) by simp
qed

lemma scan_short:
  "ps \<noteq> [] \<Longrightarrow> \<forall>p \<in> set ps. length q < length p \<Longrightarrow> scan ty q ps s = Inl out_of_range"
  by (cases ps) (simp_all add: distance_to_Inl)

lemma findNN_calls_hd: "\<exists>cs. findNN_calls ty t q s = t # cs"
  by (cases t; cases s) (simp add: findNN_calls.simps)

text \<open>
  Over a signed scalar type, when every squared distance is at most \<open>numeric_max\<close> and
  one is strictly below it, both searches return a point at the least distance.
\<close>

lemma searches_minimal:
  assumes "sorts_by_axis srt" and "pts \<noteq> []" and "\<forall>p \<in> set pts. length p = k" and "0 < k"
    and "length q = k" and "is_signed ty"
    and "\<forall>p \<in> set pts. sqd p q \<le> numeric_max ty"
    and "\<exists>p \<in> set pts. sqd p q < numeric_max ty"
  shows "\<exists>a b. findNN ty (built srt k [] (Some None) pts 0) q = Inr a \<and>
           findNN_brute_force ty (built srt k [] (Some None) pts 0) q = Some (Inr b) \<and>
           a \<in> set pts \<and> b \<in> set pts \<and> sqd a q = sqd b q \<and>
           (\<forall>p \<in> set pts. sqd a q \<le> sqd p q)"
proof -
  let ?t = "built srt k [] (Some None) pts 0"
  let ?S = "set (points_of ?t)"
  have S: "?S = set pts"
    using built_points[OF assms(1-4), where this = "[]" and par = "Some None" and depth = 0]
    by (rule mset_eq_setD)
  from assms(8) S obtain p0 where p0: "p0 \<in> ?S" "sqd p0 q < numeric_max ty" by auto
  have fit: "\<forall>p \<in> ?S. sqd p q \<le> numeric_max ty"
    using assms(7) S by simp
  \<comment> \<open>the pruned search\<close>
  obtain s1 where s1: "findNN_rec ty ?t q (split_point ?t, numeric_max ty) = Inr s1"
    and i1: "improved q (split_point ?t, numeric_max ty) (\<lambda>p. p) ?S s1"
    using findNN_rec_improved[OF assms(4) _ assms(6), of q ?t 0 "(split_point ?t, numeric_max ty)"]
      built_ordered[OF assms(1-4), where this = "[]" and par = "Some None" and depth = 0]
      built_cycles_axes[OF assms(1-4), where this = "[]" and par = "Some None" and depth = 0]
      assms(5) fit
    by auto
  from i1 p0 have "snd s1 < numeric_max ty"
    unfolding improved_def by fastforce
  with i1 have a: "fst s1 \<in> ?S" "sqd (fst s1) q = snd s1" "\<forall>p \<in> ?S. snd s1 \<le> sqd p q"
    unfolding improved_def by auto
  have fa: "findNN ty ?t q = Inr (fst s1)"
    by (cases s1) (simp add: findNN_def findNN_init_def s1)
  \<comment> \<open>the brute-force search\<close>
  have lens: "\<forall>p \<in> ?S. length p \<le> length q \<and> sqd p q \<le> numeric_max ty"
    using S assms(3,5) fit by simp
  obtain s2 where s2: "scan ty q (points_of ?t) (None, numeric_max ty) = Inr s2"
    and i2: "improved q (None, numeric_max ty) Some ?S s2"
    using scan_improved[OF lens, of "(None, numeric_max ty)"] by auto
  from i2 p0 have "snd s2 < numeric_max ty"
    unfolding improved_def by fastforce
  with i2 obtain b where b: "fst s2 = Some b" "b \<in> ?S" "sqd b q = snd s2"
    and bmin: "\<forall>p \<in> ?S. snd s2 \<le> sqd p q"
    unfolding improved_def by auto
  have fb: "findNN_brute_force ty ?t q = Some (Inr b)"
    using b(1) by (cases s2) (simp add: findNN_brute_force_def brute_force_loop[OF assms(1-4)] s2)
  have "sqd (fst s1) q = sqd b q"
    using a b bmin by (metis order_antisym)
  then show ?thesis
    using fa fb a b S by auto
qed

text \<open>
  The boundary of the last hypothesis. When every squared distance equals
  \<open>numeric_max\<close>, the comparison \<^verbatim>\<open>dist < best_dist\<close> never succeeds: the brute-force
  search copies from its unassigned \<^verbatim>\<open>best_point\<close>, and the pruned search returns the
  point of the root, with which \<^verbatim>\<open>findNN\<close> initialised its own.
\<close>

lemma no_point_below_numeric_max:
  assumes "sorts_by_axis srt" and "pts \<noteq> []" and "\<forall>p \<in> set pts. length p = k" and "0 < k"
    and "length q = k" and "is_signed ty"
    and "\<forall>p \<in> set pts. sqd p q = numeric_max ty"
  shows "findNN_brute_force ty (built srt k [] (Some None) pts 0) q
           = Some (Inl undefined_behaviour)"
    and "findNN ty (built srt k [] (Some None) pts 0) q
           = Inr (split_point (built srt k [] (Some None) pts 0))"
proof -
  let ?t = "built srt k [] (Some None) pts 0"
  let ?S = "set (points_of ?t)"
  have S: "?S = set pts"
    using built_points[OF assms(1-4), where this = "[]" and par = "Some None" and depth = 0]
    by (rule mset_eq_setD)
  have fit: "\<forall>p \<in> ?S. sqd p q \<le> numeric_max ty"
    using assms(7) S by simp
  have lens: "\<forall>p \<in> ?S. length p \<le> length q \<and> sqd p q \<le> numeric_max ty"
    using S assms(3,5) fit by simp
  obtain s2 where s2: "scan ty q (points_of ?t) (None, numeric_max ty) = Inr s2"
    and i2: "improved q (None, numeric_max ty) Some ?S s2"
    using scan_improved[OF lens, of "(None, numeric_max ty)"] by auto
  from i2 assms(7) S have "s2 = (None, numeric_max ty)"
    unfolding improved_def by fastforce
  then show "findNN_brute_force ty ?t q = Some (Inl undefined_behaviour)"
    by (simp add: findNN_brute_force_def brute_force_loop[OF assms(1-4)] s2)
  obtain s1 where s1: "findNN_rec ty ?t q (split_point ?t, numeric_max ty) = Inr s1"
    and i1: "improved q (split_point ?t, numeric_max ty) (\<lambda>p. p) ?S s1"
    using findNN_rec_improved[OF assms(4) _ assms(6), of q ?t 0 "(split_point ?t, numeric_max ty)"]
      built_ordered[OF assms(1-4), where this = "[]" and par = "Some None" and depth = 0]
      built_cycles_axes[OF assms(1-4), where this = "[]" and par = "Some None" and depth = 0]
      assms(5) fit
    by auto
  from i1 assms(7) S have "s1 = (split_point ?t, numeric_max ty)"
    unfolding improved_def by fastforce
  then show "findNN ty ?t q = Inr (split_point ?t)"
    by (simp add: findNN_def findNN_init_def s1)
qed

text \<open>
  Where the two searches part. On \<^verbatim>\<open>Tree<unsigned>\<close> the difference \<^verbatim>\<open>d\<close> is never
  negative, so the search goes right whenever the coordinates differ: from the points
  \<open>(0)\<close>, \<open>(10)\<close>, \<open>(20)\<close> and the query \<open>(1)\<close> the pruned search calls the nodes of
  \<open>(10)\<close> and \<open>(20)\<close> only and returns \<open>(10)\<close>, the brute-force search returns \<open>(0)\<close>. On
  \<^verbatim>\<open>Tree<int>\<close> with one point at squared distance \<open>numeric_max\<close> exactly, the
  brute-force search has no point to copy.
\<close>

lemma unsigned_searches_differ:
  "Tree_of insertion_sort [[0], [10], [20]] =
     Inr (Tree (Some (Tree None None (Some (Some [])) 0 1 [0]))
               (Some (Tree None None (Some (Some [])) 0 1 [20])) (Some None) 0 1 [10]) \<and>
   findNN_calls T_unsigned
     (Tree (Some (Tree None None (Some (Some [])) 0 1 [0]))
           (Some (Tree None None (Some (Some [])) 0 1 [20])) (Some None) 0 1 [10])
     [1] ([10], numeric_max T_unsigned) =
     [Tree (Some (Tree None None (Some (Some [])) 0 1 [0]))
           (Some (Tree None None (Some (Some [])) 0 1 [20])) (Some None) 0 1 [10],
      Tree None None (Some (Some [])) 0 1 [20]] \<and>
   findNN T_unsigned
     (Tree (Some (Tree None None (Some (Some [])) 0 1 [0]))
           (Some (Tree None None (Some (Some [])) 0 1 [20])) (Some None) 0 1 [10])
     [1] = Inr [10] \<and>
   findNN_brute_force T_unsigned
     (Tree (Some (Tree None None (Some (Some [])) 0 1 [0]))
           (Some (Tree None None (Some (Some [])) 0 1 [20])) (Some None) 0 1 [10])
     [1] = Some (Inr [0])"
  by code_simp

lemma distance_numeric_max_example:
  "Tree_of insertion_sort [[0, 0, 0, 0]] = Inr (Tree None None (Some None) 0 4 [0, 0, 0, 0]) \<and>
   distance_to T_int [0, 0, 0, 0] [46339, 425, 10, 1] = Inr (numeric_max T_int) \<and>
   findNN T_int (Tree None None (Some None) 0 4 [0, 0, 0, 0]) [46339, 425, 10, 1]
     = Inr [0, 0, 0, 0] \<and>
   findNN_brute_force T_int (Tree None None (Some None) 0 4 [0, 0, 0, 0]) [46339, 425, 10, 1]
     = Some (Inl undefined_behaviour)"
  by code_simp

text \<open>
  What the code does when dimensions do not match. A collection of points of different
  sizes fails the assertion of the root call. A query with fewer coordinates than the
  tree makes the checked read throw in both searches. A query with more coordinates is
  not detected: only the coordinates below the tree's dimensionality are read.
\<close>

lemma mixed_sizes_rejected:
  assumes "p \<in> set pts" "length p \<noteq> length (hd pts)"
  shows "Tree_of srt pts = Inl assertion_failed"
proof -
  from assms obtain x xs where pts: "pts = x # xs" by (cases pts) auto
  with assms have "p \<in> set xs" "int (length p) \<noteq> int (length x)" by auto
  then have "validate xs (int (length x)) = Inl assertion_failed"
    by (rule validate_rejects) simp
  then show ?thesis
    unfolding Tree_of_def by (subst RecursiveInit.simps) (simp add: pts Let_def)
qed

lemma shorter_query_rejected:
  assumes "sorts_by_axis srt" "pts \<noteq> []" "\<forall>p \<in> set pts. length p = k" "0 < k" "length q < k"
  shows "findNN ty (built srt k [] (Some None) pts 0) q = Inl out_of_range"
    and "findNN_brute_force ty (built srt k [] (Some None) pts 0) q = Some (Inl out_of_range)"
proof -
  let ?t = "built srt k [] (Some None) pts 0"
  have len: "\<forall>p \<in> set (points_of ?t). length p = k"
    using built_cycles_axes[OF assms(1-4), where this = "[]" and par = "Some None" and depth = 0]
    by (rule cycles_axes_lengths)
  obtain l r par axis k' sp where t: "?t = Tree l r par axis k' sp" by (cases ?t)
  have "length (split_point ?t) = k"
    using len split_point_in_points by blast
  then have "length q < length sp" using assms(5) by (simp add: t)
  then have "findNN_rec ty (Tree l r par axis k' sp) q (sp, numeric_max ty) = Inl out_of_range"
    by (subst findNN_rec.simps) (simp add: distance_to_Inl)
  then show "findNN ty ?t q = Inl out_of_range"
    by (simp add: findNN_def findNN_init_def t)
  have "scan ty q (points_of ?t) (None, numeric_max ty) = Inl out_of_range"
    using len assms(5) by (intro scan_short points_of_nonempty) simp
  then show "findNN_brute_force ty ?t q = Some (Inl out_of_range)"
    by (simp add: findNN_brute_force_def brute_force_loop[OF assms(1-4)])
qed


section \<open>The claims\<close>

text \<open>
  In the theorems below \<open>srt\<close> is any sort that returns a sorted permutation
  (\<open>sorts_by_axis\<close>), the points share one dimensionality \<open>k > 0\<close>, and the tree is the
  one the constructor \<open>Tree_of srt pts\<close> returns.
\<close>

text \<open>
  \<^bold>\<open>C1\<close> (search agreement). The claim is that on every constructed tree and every query
  of its dimensionality the two searches return points at equal squared distance. The
  code does not do that where the arithmetic of \<^verbatim>\<open>T\<close> wraps: on \<^verbatim>\<open>Tree<int>\<close> built from
  \<open>(0)\<close>, \<open>(1)\<close>, \<open>(46342)\<close> and the query \<open>(1)\<close>, the distance to \<open>(46342)\<close> is
  \<open>46341 * 46341\<close>, which \<^verbatim>\<open>distance_to\<close> computes as \<open>- 2147479015\<close>. The brute-force
  search takes it for the least and returns \<open>(46342)\<close>; the pruned search stops at the
  root \<open>(1)\<close>, at distance 0, and prunes the right subtree.
\<close>

theorem search_agreement_counterexample:
  "Tree_of insertion_sort [[0], [1], [46342]] =
     Inr (Tree (Some (Tree None None (Some (Some [])) 0 1 [0]))
               (Some (Tree None None (Some (Some [])) 0 1 [46342])) (Some None) 0 1 [1]) \<and>
   findNN T_int
     (Tree (Some (Tree None None (Some (Some [])) 0 1 [0]))
           (Some (Tree None None (Some (Some [])) 0 1 [46342])) (Some None) 0 1 [1])
     [1] = Inr [1] \<and>
   findNN_brute_force T_int
     (Tree (Some (Tree None None (Some (Some [])) 0 1 [0]))
           (Some (Tree None None (Some (Some [])) 0 1 [46342])) (Some None) 0 1 [1])
     [1] = Some (Inr [46342]) \<and>
   distance_to T_int [1] [1] = Inr 0 \<and>
   distance_to T_int [46342] [1] = Inr (- 2147479015) \<and>
   sqd [1] [1] = 0 \<and> sqd [46342] [1] = 2147488281"
  by code_simp

text \<open>
  \<^bold>\<open>C1\<close>, as the code has it (the comment of \<^verbatim>\<open>findNN\<close> reads: assumes distance
  between points is of type \<^verbatim>\<open>T\<close>). Let \<^verbatim>\<open>T\<close> be signed, the tree be built from a non-empty
  collection of points of one dimensionality, and the query have that dimensionality.
  If the squared Euclidean distance from every point of the collection to the query is
  at most \<open>numeric_max\<close>, and that of one point is strictly below it, then \<open>findNN\<close> and
  \<open>findNN_brute_force\<close> both return a point of the collection, the two points have the
  same squared distance to the query, which is the squared Euclidean distance and the
  least over the collection; so the two points differ only when at least two points of
  the collection lie at that least distance.
\<close>

theorem search_agreement:
  assumes "sorts_by_axis srt" and "pts \<noteq> []" and "\<forall>p \<in> set pts. length p = k" and "0 < k"
    and "length q = k" and "is_signed ty"
    and "\<forall>p \<in> set pts. sqd p q \<le> numeric_max ty"
    and "\<exists>p \<in> set pts. sqd p q < numeric_max ty"
  shows "\<exists>t a b d. Tree_of srt pts = Inr t \<and>
           findNN ty t q = Inr a \<and> findNN_brute_force ty t q = Some (Inr b) \<and>
           a \<in> set pts \<and> b \<in> set pts \<and>
           distance_to ty a q = Inr d \<and> distance_to ty b q = Inr d \<and>
           d = sqd a q \<and> d = sqd b q \<and>
           (\<forall>p \<in> set pts. \<exists>e. distance_to ty p q = Inr e \<and> d \<le> e) \<and>
           (a \<noteq> b \<longrightarrow> 2 \<le> card {p \<in> set pts. distance_to ty p q = Inr d})"
proof -
  let ?t = "built srt k [] (Some None) pts 0"
  have dist: "distance_to ty p q = Inr (sqd p q)" if "p \<in> set pts" for p
    using that assms(3,5,7) by (simp add: distance_to_Inr)
  from searches_minimal[OF assms]
  obtain a b where ab: "findNN ty ?t q = Inr a"
    "findNN_brute_force ty ?t q = Some (Inr b)"
    "a \<in> set pts" "b \<in> set pts" "sqd a q = sqd b q" "\<forall>p \<in> set pts. sqd a q \<le> sqd p q"
    by blast
  have tie: "2 \<le> card {p \<in> set pts. distance_to ty p q = Inr (sqd a q)}" if "a \<noteq> b"
  proof -
    have "{a, b} \<subseteq> {p \<in> set pts. distance_to ty p q = Inr (sqd a q)}"
      using ab(3,4,5) dist by auto
    then have "card {a, b} \<le> card {p \<in> set pts. distance_to ty p q = Inr (sqd a q)}"
      by (intro card_mono) auto
    with that show ?thesis by simp
  qed
  show ?thesis
    using Tree_of_built[OF assms(1-4)] ab dist tie
    by (intro exI[of _ ?t] exI[of _ a] exI[of _ b] exI[of _ "sqd a q"]) auto
qed

theorem search_agreement_witness:
  "Tree_of insertion_sort wikipedia_points = Inr wikipedia_tree \<and>
   findNN T_int wikipedia_tree [9, 2] = Inr [8, 1] \<and>
   findNN_brute_force T_int wikipedia_tree [9, 2] = Some (Inr [8, 1]) \<and>
   distance_to T_int [8, 1] [9, 2] = Inr 2"
proof -
  have fit: "\<forall>p \<in> set wikipedia_points. sqd p [9, 2] \<le> numeric_max T_int"
    by code_simp
  have below: "\<exists>p \<in> set wikipedia_points. sqd p [9, 2] < numeric_max T_int"
    by code_simp
  have f: "findNN T_int wikipedia_tree [9, 2] = Inr [8, 1]"
    "findNN_brute_force T_int wikipedia_tree [9, 2] = Some (Inr [8, 1])"
    "distance_to T_int [8, 1] [9, 2] = Inr 2"
    by code_simp+
  from search_agreement[OF sorts_insertion_sort wikipedia_points_ok _ _ _ fit below] f
  show ?thesis
    by (simp add: wikipedia_tree_built)
qed

text \<open>
  \<^bold>\<open>C2\<close> (pruning rule). At a node, with \<open>d\<close> the query's coordinate on the split axis
  minus the node's, computed in \<^verbatim>\<open>T\<close>, the closer child is the right child if \<open>d > 0\<close>
  and the left child otherwise, and it is searched first. With \<open>best'\<close> the running best
  after that, the farther child, when there is one, is called if and only if \<open>d * d\<close>,
  computed in \<^verbatim>\<open>T\<close>, is strictly below \<open>snd best'\<close>; otherwise no call is made below it
  and the result is \<open>best'\<close>.
\<close>

theorem pruning_rule:
  assumes "distance_to ty sp q = Inr local_dist"
    and "point_at q axis = Inr ref_c" and "point_at sp axis = Inr local_c"
    and "d = wrap ty (ref_c - local_c)"
    and "best = (if local_dist < best_dist then (sp, local_dist) else (best_point, best_dist))"
    and "closer = (if d > 0 then r else l)" and "farther = (if d > 0 then l else r)"
    and "(case closer of None \<Rightarrow> Inr best | Some c \<Rightarrow> findNN_rec ty c q best) = Inr best'"
  shows "\<exists>closer_calls farther_calls.
      findNN_calls ty (Tree l r par axis k sp) q (best_point, best_dist) =
        Tree l r par axis k sp # closer_calls @ farther_calls \<and>
      closer_calls = (case closer of None \<Rightarrow> [] | Some c \<Rightarrow> findNN_calls ty c q best) \<and>
      (case farther of None \<Rightarrow> farther_calls = []
       | Some f \<Rightarrow> (f \<in> set farther_calls) = (wrap ty (d * d) < snd best')) \<and>
      (if wrap ty (d * d) < snd best' then
         farther_calls = (case farther of None \<Rightarrow> [] | Some f \<Rightarrow> findNN_calls ty f q best') \<and>
         findNN_rec ty (Tree l r par axis k sp) q (best_point, best_dist) =
           (case farther of None \<Rightarrow> Inr best' | Some f \<Rightarrow> findNN_rec ty f q best')
       else
         farther_calls = [] \<and>
         findNN_rec ty (Tree l r par axis k sp) q (best_point, best_dist) = Inr best')"
proof -
  have res: "findNN_rec ty (Tree l r par axis k sp) q (best_point, best_dist) =
      (if wrap ty (d * d) < snd best' then
         (case farther of None \<Rightarrow> Inr best' | Some f \<Rightarrow> findNN_rec ty f q best')
       else Inr best')"
    using assms(8) unfolding assms(4-7)
    by (subst findNN_rec.simps) (simp add: assms(1-3) Let_def)
  have calls: "findNN_calls ty (Tree l r par axis k sp) q (best_point, best_dist) =
      Tree l r par axis k sp #
      (case closer of None \<Rightarrow> [] | Some c \<Rightarrow> findNN_calls ty c q best) @
      (if wrap ty (d * d) < snd best' then
         (case farther of None \<Rightarrow> [] | Some f \<Rightarrow> findNN_calls ty f q best')
       else [])"
    using assms(8) unfolding assms(4-7)
    by (subst findNN_calls.simps) (simp add: assms(1-3) Let_def)
  have mem: "f \<in> set (findNN_calls ty f q best')" for f
    using findNN_calls_hd[of ty f q best'] by auto
  show ?thesis
    using res calls mem by (cases "wrap ty (d * d) < snd best'") (auto split: option.splits)
qed

theorem pruning_rule_witness:
  "findNN_calls T_int wikipedia_tree [9, 2] ([7, 2], numeric_max T_int) =
     [wikipedia_tree,
      Tree (Some (Tree None None (Some (Some [R])) 0 2 [8, 1])) None (Some (Some [])) 1 2 [9, 6],
      Tree None None (Some (Some [R])) 0 2 [8, 1]] \<and>
   findNN_rec T_int wikipedia_tree [9, 2] ([7, 2], numeric_max T_int) = Inr ([8, 1], 2)"
proof -
  let ?l = "Some (Tree (Some (Tree None None (Some (Some [L])) 0 2 [2, 3]))
                      (Some (Tree None None (Some (Some [L])) 0 2 [4, 7]))
                   (Some (Some [])) 1 2 [5, 4])"
  let ?rt = "Tree (Some (Tree None None (Some (Some [R])) 0 2 [8, 1])) None
                   (Some (Some [])) 1 2 [9, 6]"
  have 1: "distance_to T_int [7, 2] [9, 2] = Inr 4" by code_simp
  have 2: "point_at [9, 2] 0 = Inr 9" by code_simp
  have 3: "point_at [7, 2] 0 = Inr 7" by code_simp
  have 4: "(2::int) = wrap T_int (9 - 7)" by code_simp
  have 5: "([7, 2], 4) =
      (if (4::int) < numeric_max T_int then ([7, 2], 4) else ([7, 2], numeric_max T_int))"
    by (simp add: numeric_max_def)
  have 6: "Some ?rt = (if (2::int) > 0 then Some ?rt else ?l)" by simp
  have 7: "?l = (if (2::int) > 0 then ?l else Some ?rt)" by simp
  have 8: "(case Some ?rt of None \<Rightarrow> Inr ([7, 2], 4)
            | Some c \<Rightarrow> findNN_rec T_int c [9, 2] ([7, 2], 4)) = Inr ([8, 1], 2)"
    by code_simp
  have c: "findNN_calls T_int ?rt [9, 2] ([7, 2], 4) =
      [?rt, Tree None None (Some (Some [R])) 0 2 [8, 1]]"
    by code_simp
  have w: "wrap T_int (2 * 2) = 4" by code_simp
  from pruning_rule[OF 1 2 3 4 5 6 7 8, of "Some None" 2] c w
  show ?thesis
    by (auto simp: wikipedia_tree_def)
qed

text \<open>
  \<^bold>\<open>C3\<close> (ordering invariant). In a constructed tree, at every node, every point of the
  left subtree has a coordinate on the node's split axis that is at most the node's, and
  every point of the right subtree one that is at least the node's.
\<close>

theorem ordering_invariant:
  assumes "sorts_by_axis srt" and "pts \<noteq> []" and "\<forall>p \<in> set pts. length p = k" and "0 < k"
  shows "\<exists>t. Tree_of srt pts = Inr t \<and> ordered t"
  using Tree_of_built[OF assms] built_ordered[OF assms] by simp

theorem ordering_invariant_witness:
  "Tree_of insertion_sort wikipedia_points = Inr wikipedia_tree \<and> ordered wikipedia_tree"
  using ordering_invariant[OF sorts_insertion_sort wikipedia_points_ok]
  by (simp add: wikipedia_tree_built)

text \<open>
  \<^bold>\<open>C4\<close> (completeness of traversal). Iterating a tree built from \<open>n\<close> points from
  \<open>begin()\<close> to \<open>end()\<close> ends, visits \<open>n\<close> node pointers, no pointer twice, and the
  points it yields are, as a multiset, the points given to the construction.
\<close>

theorem traversal_complete:
  assumes "sorts_by_axis srt" and "pts \<noteq> []" and "\<forall>p \<in> set pts. length p = k" and "0 < k"
  shows "\<exists>t visited yielded. Tree_of srt pts = Inr t \<and>
           traverse t = Some (Inr visited) \<and>
           length visited = length pts \<and> distinct visited \<and>
           map (star t) visited = map Inr yielded \<and> mset yielded = mset pts"
proof -
  let ?t = "built srt k [] (Some None) pts 0"
  have ril: "right_implies_left ?t"
    using assms by (rule built_right_implies_left)
  have pts: "mset (points_of ?t) = mset pts"
    using assms by (rule built_points)
  have "traverse ?t = Some (Inr (inorder_ptrs ?t []))"
    using ril built_parent built_parents_linked[OF assms] by (rule traverse_inorder)
  moreover have "length (inorder_ptrs ?t []) = length pts"
    using mset_eq_length[OF pts] by (simp add: length_inorder_ptrs)
  moreover have "distinct (inorder_ptrs ?t [])"
    by (rule distinct_inorder_ptrs)
  moreover have "map (star ?t) (inorder_ptrs ?t []) = map Inr (points_of ?t)"
    by (rule star_inorder_ptrs) simp
  ultimately show ?thesis
    using Tree_of_built[OF assms] pts by blast
qed

theorem traversal_complete_witness:
  "Tree_of insertion_sort wikipedia_points = Inr wikipedia_tree \<and>
   traverse wikipedia_tree = Some (Inr [[L, L], [L], [R, L], [], [L, R], [R]]) \<and>
   map (star wikipedia_tree) [[L, L], [L], [R, L], [], [L, R], [R]] =
     map Inr [[2, 3], [5, 4], [4, 7], [7, 2], [8, 1], [9, 6]]"
proof -
  have t: "traverse wikipedia_tree = Some (Inr [[L, L], [L], [R, L], [], [L, R], [R]])"
    by code_simp
  have "map (star wikipedia_tree) [[L, L], [L], [R, L], [], [L, R], [R]] =
     map Inr [[2, 3], [5, 4], [4, 7], [7, 2], [8, 1], [9, 6]]"
    by code_simp
  with t show ?thesis
    using traversal_complete[OF sorts_insertion_sort wikipedia_points_ok]
    by (simp add: wikipedia_tree_built)
qed

text \<open>
  \<^bold>\<open>C5\<close> (balance). A tree built from \<open>n \<ge> 1\<close> points has exactly
  \<open>\<lceil>log\<^sub>2 (n + 1)\<rceil>\<close> levels.
\<close>

theorem balanced_height:
  assumes "sorts_by_axis srt" and "pts \<noteq> []" and "\<forall>p \<in> set pts. length p = k" and "0 < k"
  shows "\<exists>t. Tree_of srt pts = Inr t \<and>
           int (height t) = \<lceil>log 2 (real (length pts + 1))\<rceil>"
proof -
  let ?t = "built srt k [] (Some None) pts 0"
  obtain h where h: "height ?t = Suc h"
    using height_pos[of ?t] by (cases "height ?t") auto
  from built_height[OF assms, of "[]" "Some None" 0]
  have "length pts < 2 ^ Suc h" "2 ^ Suc h \<le> 2 * length pts"
    by (simp_all add: h)
  then have "2 ^ h < length pts + 1" "length pts + 1 \<le> 2 ^ (h + 1)"
    by simp_all
  then have "\<lceil>log (real 2) (real (length pts + 1))\<rceil> = int h + 1"
    by (rule ceiling_log_nat_eq_if) simp
  then have "int (height ?t) = \<lceil>log 2 (real (length pts + 1))\<rceil>"
    by (simp add: h)
  then show ?thesis
    using Tree_of_built[OF assms] by simp
qed

theorem balanced_height_witness:
  "Tree_of insertion_sort wikipedia_points = Inr wikipedia_tree \<and>
   height wikipedia_tree = 3 \<and> \<lceil>log 2 (real (length wikipedia_points + 1))\<rceil> = 3"
proof -
  have "height wikipedia_tree = 3" by code_simp
  then show ?thesis
    using balanced_height[OF sorts_insertion_sort wikipedia_points_ok]
    by (simp add: wikipedia_tree_built)
qed

text \<open>
  \<^bold>\<open>C6\<close> (one construction step). Over a non-empty range at depth \<open>depth\<close> the split
  axis is \<open>depth mod k\<close>; the node's point is the element at index \<open>length pts div 2\<close> of
  the range sorted on that axis; the left child is built from the elements before it
  and the right child from the elements after it, both at \<open>depth + 1\<close> and then linked
  to the node as their parent, and an empty sub-range gives no child.
\<close>

theorem construction_step:
  assumes "sorts_by_axis srt" and "pts \<noteq> []" and "\<forall>p \<in> set pts. length p = k" and "0 < k"
  shows "let axis = depth mod k; s = srt axis pts; m = length pts div 2;
             lpts = take m s; rpts = drop (m + 1) s
         in mset s = mset pts \<and> sorted (map (\<lambda>p. p ! axis) s) \<and>
            (\<exists>l r. RecursiveInit srt this pts depth =
                     Inr (Tree l r (if depth = 0 then Some None else None) axis k (s ! m)) \<and>
               (case l of
                  None \<Rightarrow> lpts = []
                | Some c \<Rightarrow> lpts \<noteq> [] \<and>
                    (\<exists>c'. RecursiveInit srt (L # this) lpts (depth + 1) = Inr c' \<and>
                          c = set_parent (Some this) c')) \<and>
               (case r of
                  None \<Rightarrow> rpts = []
                | Some c \<Rightarrow> rpts \<noteq> [] \<and>
                    (\<exists>c'. RecursiveInit srt (R # this) rpts (depth + 1) = Inr c' \<and>
                          c = set_parent (Some this) c')))"
proof -
  let ?s = "srt (depth mod k) pts"
  let ?m = "length pts div 2"
  let ?par = "if depth = 0 then Some None else None"
  note sr = sorted_range[OF assms(1,3,4), of depth]
  have m: "?m < length ?s" using sr(3) assms(2) by simp
  have split: "?s = take ?m ?s @ [?s ! ?m] @ drop (?m + 1) ?s"
    using id_take_nth_drop[OF m] by simp
  note sz = sub_range_sizes[OF assms(3) sr(1) split]
  have l: "RecursiveInit srt (L # this) (take ?m ?s) (depth + 1)
      = Inr (built srt k (L # this) None (take ?m ?s) (depth + 1))"
    if "take ?m ?s \<noteq> []"
    using RecursiveInit_built[OF assms(1) that sz(1) assms(4), of "L # this" "depth + 1"]
    by simp
  have r: "RecursiveInit srt (R # this) (drop (?m + 1) ?s) (depth + 1)
      = Inr (built srt k (R # this) None (drop (?m + 1) ?s) (depth + 1))"
    if "drop (?m + 1) ?s \<noteq> []"
    using RecursiveInit_built[OF assms(1) that sz(2) assms(4), of "R # this" "depth + 1"]
    by simp
  have "RecursiveInit srt this pts depth = Inr (built srt k this ?par pts depth)"
    using assms by (rule RecursiveInit_built)
  then show ?thesis
    unfolding Let_def
    by (subst (asm) built_root[OF assms]) (use sr(1,2) l r in \<open>auto simp: set_parent_built\<close>)
qed

theorem construction_step_witness:
  "insertion_sort 0 wikipedia_points = [[2, 3], [4, 7], [5, 4], [7, 2], [8, 1], [9, 6]] \<and>
   RecursiveInit insertion_sort [] wikipedia_points 0 = Inr wikipedia_tree \<and>
   split_axis wikipedia_tree = 0 \<and> split_point wikipedia_tree = [7, 2] \<and>
   map_option Inr (left_child wikipedia_tree)
     = Some (map_sum id (set_parent (Some []))
         (RecursiveInit insertion_sort [L] [[2, 3], [4, 7], [5, 4]] 1)) \<and>
   map_option Inr (right_child wikipedia_tree)
     = Some (map_sum id (set_parent (Some []))
         (RecursiveInit insertion_sort [R] [[8, 1], [9, 6]] 1))"
proof -
  have s: "insertion_sort 0 wikipedia_points = [[2, 3], [4, 7], [5, 4], [7, 2], [8, 1], [9, 6]]"
    by code_simp
  have n: "length wikipedia_points div 2 = 3" "(0::nat) mod 2 = 0"
    by (simp_all add: wikipedia_points_def)
  have t: "RecursiveInit insertion_sort [] wikipedia_points 0 = Inr wikipedia_tree"
    using wikipedia_tree_built by (simp add: Tree_of_def)
  from construction_step[OF sorts_insertion_sort wikipedia_points_ok, of 0 "[]"]
  show ?thesis
    by (auto simp: Let_def s n t wikipedia_tree_def split: option.splits)
qed

text \<open>
  \<^bold>\<open>C7\<close> (dimension mismatch). The claim is that a query whose dimensionality differs
  from the tree's makes both searches fail. The code does not do that for a query that
  is longer than the tree's points: on the tree of the single point \<open>(0, 0)\<close> and the
  query \<open>(1, 1, 1)\<close> both searches return \<open>(0, 0)\<close>.
\<close>

theorem longer_query_answered:
  "Tree_of insertion_sort [[0, 0]] = Inr (Tree None None (Some None) 0 2 [0, 0]) \<and>
   findNN T_int (Tree None None (Some None) 0 2 [0, 0]) [1, 1, 1] = Inr [0, 0] \<and>
   findNN_brute_force T_int (Tree None None (Some None) 0 2 [0, 0]) [1, 1, 1]
     = Some (Inr [0, 0])"
  by code_simp

text \<open>
  \<^bold>\<open>C8\<close> (initial state of \<open>findNN\<close>). The claim is that the running best distance starts
  at the squared distance from the root's point to the query. In the code it starts at
  \<open>numeric_max\<close>: on the tree of the single point \<open>(0, 0)\<close> and the query \<open>(1, 1)\<close> that
  distance is 2 and the initial state holds \<^verbatim>\<open>std::numeric_limits<int>::max()\<close>.
\<close>

theorem findNN_initial_distance_counterexample:
  "Tree_of insertion_sort [[0, 0]] = Inr (Tree None None (Some None) 0 2 [0, 0]) \<and>
   distance_to T_int (split_point (Tree None None (Some None) 0 2 [0, 0])) [1, 1] = Inr 2 \<and>
   findNN_init T_int (Tree None None (Some None) 0 2 [0, 0]) [1, 1]
     \<noteq> (split_point (Tree None None (Some None) 0 2 [0, 0]), 2) \<and>
   findNN_init T_int (Tree None None (Some None) 0 2 [0, 0]) [1, 1]
     = (split_point (Tree None None (Some None) 0 2 [0, 0]), 2147483647)"
  by code_simp

text \<open>
  \<^bold>\<open>C8\<close>, as the code has it: \<open>findNN\<close> starts the recursive search with the root's own
  point as running best point and \<open>numeric_max\<close> as running best squared distance.
\<close>

theorem findNN_initial_state:
  "findNN_init ty t q = (split_point t, numeric_max ty) \<and>
   findNN ty t q =
     (case findNN_rec ty t q (split_point t, numeric_max ty) of
        Inl e \<Rightarrow> Inl e
      | Inr (best_point, best_dist) \<Rightarrow> Inr best_point)"
  by (simp add: findNN_def findNN_init_def)

text \<open>
  \<^bold>\<open>C9\<close> (a right child only with a left child). In a constructed tree every node that
  has a right child has a left child: of the \<open>n\<close> points of a node the left sub-range
  receives \<open>n div 2\<close> and the right one \<open>(n + 1) div 2 - 1\<close>. So the descent of
  \<open>begin()\<close> takes only left steps, and the traversal visits every ancestor of every node
  it visits.
\<close>

theorem right_child_only_with_left_child:
  assumes "sorts_by_axis srt" and "pts \<noteq> []" and "\<forall>p \<in> set pts. length p = k" and "0 < k"
  shows "\<exists>t p visited. Tree_of srt pts = Inr t \<and>
           right_implies_left t \<and> median_split t \<and>
           begin_it t = Some p \<and> R \<notin> set p \<and>
           traverse t = Some (Inr visited) \<and>
           (\<forall>c \<in> set visited. \<forall>a. suffix a c \<longrightarrow> a \<in> set visited)"
proof -
  let ?t = "built srt k [] (Some None) pts 0"
  have ril: "right_implies_left ?t"
    using assms by (rule built_right_implies_left)
  have ms: "median_split ?t"
    using assms by (rule built_median_split)
  have "begin_it ?t = Some (descend_left ?t [])"
    by (simp add: begin_it_def TreeIterator_descend_left[OF ril])
  moreover have "R \<notin> set (descend_left ?t [])"
    using descend_left_steps[of ?t "[]"] by auto
  moreover have "traverse ?t = Some (Inr (inorder_ptrs ?t []))"
    using ril built_parent built_parents_linked[OF assms] by (rule traverse_inorder)
  moreover have "\<forall>c \<in> set (inorder_ptrs ?t []). \<forall>a. suffix a c \<longrightarrow> a \<in> set (inorder_ptrs ?t [])"
    using inorder_ptrs_ancestors by blast
  ultimately show ?thesis
    using Tree_of_built[OF assms] ril ms by blast
qed

theorem right_child_only_with_left_child_witness:
  "Tree_of insertion_sort wikipedia_points = Inr wikipedia_tree \<and>
   right_implies_left wikipedia_tree \<and> median_split wikipedia_tree \<and>
   begin_it wikipedia_tree = Some [L, L]"
proof -
  have "begin_it wikipedia_tree = Some [L, L]" by code_simp
  then show ?thesis
    using right_child_only_with_left_child[OF sorts_insertion_sort wikipedia_points_ok]
    by (auto simp: wikipedia_tree_built)
qed



end
